theory Spec2Isabelle
  imports Main "HOL-Library.Char_ord" "HOL-Library.List_Lexorder"
begin

section \<open>Python values used by ciocheck/vcs.py\<close>

text \<open>
  Strings are character lists. The exceptions the module can raise are values:
  \<open>Exception msg\<close> for every \<^verbatim>\<open>raise Exception(msg)\<close>, \<open>TypeError\<close> for
  \<^verbatim>\<open>os.path.join(None, ...)\<close> and \<open>KeyError\<close> for a missing dictionary key.
  A function that can raise returns \<open>exn + 'a\<close>, with \<open>Inl\<close> the exception.
\<close>

datatype exn = Exception string | TypeError | KeyError

text \<open>\<^verbatim>\<open>s.startswith(p)\<close>\<close>

definition startswith :: "string \<Rightarrow> string \<Rightarrow> bool" where
  "startswith s p = (take (length p) s = p)"

text \<open>\<^verbatim>\<open>sub in s\<close> for strings: \<open>sub\<close> occurs in \<open>s\<close> as a contiguous run.\<close>

fun contains :: "string \<Rightarrow> string \<Rightarrow> bool" where
  "contains [] sub = (sub = [])"
| "contains (c # cs) sub = (startswith (c # cs) sub \<or> contains cs sub)"

text \<open>
  \<^verbatim>\<open>s.split(sep)\<close> for a non-empty separator: the pieces between the occurrences of
  \<open>sep\<close>, found from left to right without overlap; always at least one piece.
\<close>

fun split_str :: "string \<Rightarrow> string \<Rightarrow> string list" where
  "split_str [] sep = [[]]"
| "split_str (c # cs) sep =
     (if startswith (c # cs) sep then [] # split_str (drop (length sep - 1) cs) sep
      else (case split_str cs sep of
              [] \<Rightarrow> [[c]]
            | piece # pieces \<Rightarrow> (c # piece) # pieces))"

text \<open>\<^verbatim>\<open>"'{0}'".format(x)\<close>: the text between two apostrophes.\<close>

definition quoted :: "string \<Rightarrow> string" where
  "quoted x = CHR 0x27 # x @ [CHR 0x27]"

text \<open>
  \<^verbatim>\<open>int(s)\<close> on what \<^verbatim>\<open>[0-9]*\<close> can capture. A non-empty run of decimal digits is its
  value, unless the run has more digits than the interpreter converts: CPython 3.11,
  and the patched releases of the earlier versions, raise \<^verbatim>\<open>ValueError\<close> for a text of
  more than \<^verbatim>\<open>sys.get_int_max_str_digits()\<close> digits, 4300 unless configured otherwise,
  and count leading zeros among them. Anything else is a \<^verbatim>\<open>ValueError\<close> too (\<open>None\<close>).
\<close>

definition digits :: string where
  "digits = ''0123456789''"

definition digit_val :: "char \<Rightarrow> int" where
  "digit_val c = int (of_char c) - 48"

definition int_max_str_digits :: nat where
  "int_max_str_digits = 4300"

definition py_int :: "string \<Rightarrow> int option" where
  "py_int s =
     (if s \<noteq> [] \<and> (\<forall>c \<in> set s. c \<in> set digits) \<and> length s \<le> int_max_str_digits
      then Some (foldl (\<lambda>n c. 10 * n + digit_val c) 0 s)
      else None)"

text \<open>
  \<^verbatim>\<open>os.path.join(a, b)\<close> of posixpath: an absolute \<open>b\<close> replaces \<open>a\<close>; otherwise
  \<open>b\<close> is appended, after a separator unless \<open>a\<close> is empty or ends with one.
\<close>

definition os_path_join :: "string \<Rightarrow> string \<Rightarrow> string" where
  "os_path_join a b =
     (if startswith b ''/'' then b
      else if a = [] \<or> last a = CHR ''/'' then a @ b
      else a @ ''/'' @ b)"

subsection \<open>The regular expressions\<close>

text \<open>
  The three patterns of \<^verbatim>\<open>GitDiffTool\<close> are sequences of: a literal character, an
  optional character \<^verbatim>\<open>c?\<close>, a greedy starred character class \<^verbatim>\<open>k*\<close>, and the one
  capturing group \<^verbatim>\<open>(k*)\<close>. \<open>rmatch\<close> is the backtracking matcher of \<^verbatim>\<open>re\<close> on
  such a sequence, at the start of the text: greedy items try the longest run first and
  give characters back until the rest of the pattern matches. It returns the group's
  text and the text left after the match.
\<close>

datatype cls = Dot | OneOf string | NoneOf string

fun in_cls :: "cls \<Rightarrow> char \<Rightarrow> bool" where
  "in_cls Dot c = (c \<noteq> CHR 0x0A)"
| "in_cls (OneOf cs) c = (c \<in> set cs)"
| "in_cls (NoneOf cs) c = (c \<notin> set cs)"

datatype item = Lit char | Opt char | Star cls | Group cls

fun first_some :: "'a option list \<Rightarrow> 'a option" where
  "first_some [] = None"
| "first_some (None # xs) = first_some xs"
| "first_some (Some x # xs) = Some x"

fun rmatch :: "item list \<Rightarrow> string \<Rightarrow> (string \<times> string) option" where
  "rmatch [] s = Some ([], s)"
| "rmatch (Lit c # r) s =
     (case s of [] \<Rightarrow> None | x # xs \<Rightarrow> if x = c then rmatch r xs else None)"
| "rmatch (Opt c # r) s =
     (case (case s of [] \<Rightarrow> None | x # xs \<Rightarrow> if x = c then rmatch r xs else None) of
        Some m \<Rightarrow> Some m
      | None \<Rightarrow> rmatch r s)"
| "rmatch (Star k # r) s =
     first_some (map (\<lambda>n. rmatch r (drop n s))
                     (rev [0..<Suc (length (takeWhile (in_cls k) s))]))"
| "rmatch (Group k # r) s =
     first_some (map (\<lambda>n. map_option (\<lambda>(g, rest). (take n s, rest)) (rmatch r (drop n s)))
                     (rev [0..<Suc (length (takeWhile (in_cls k) s))]))"

text \<open>
  \<^verbatim>\<open>regex.findall(s)\<close> for a pattern with one group: the group's text of every match,
  from left to right without overlap. A pattern that starts with \<^verbatim>\<open>^\<close> can only match
  at the start of the text.
\<close>

function scan :: "item list \<Rightarrow> string \<Rightarrow> string list" where
  "scan r s =
     (case rmatch r s of
        Some (g, rest) \<Rightarrow>
          g # (if length rest < length s then scan r rest
               else (case s of [] \<Rightarrow> [] | _ # t \<Rightarrow> scan r t))
      | None \<Rightarrow> (case s of [] \<Rightarrow> [] | _ # t \<Rightarrow> scan r t))"
  by pat_completeness auto
termination
  by (relation "measure (\<lambda>(r, s). length s)") auto

declare scan.simps [simp del]

datatype regex = Anchored "item list" | Unanchored "item list"

fun findall :: "regex \<Rightarrow> string \<Rightarrow> string list" where
  "findall (Anchored r) s = (case rmatch r s of Some (g, rest) \<Rightarrow> [g] | None \<Rightarrow> [])"
| "findall (Unanchored r) s = scan r s"

text \<open>\<^verbatim>\<open>SRC_FILE_RE = re.compile(r'^diff --git "?a/.*"? "?b/([^ \n"]*)"?')\<close>\<close>

definition SRC_FILE_RE :: regex where
  "SRC_FILE_RE = Anchored
     (map Lit ''diff --git '' @ [Opt (CHR 0x22)] @ map Lit ''a/'' @
      [Star Dot, Opt (CHR 0x22), Lit CHR '' '', Opt (CHR 0x22)] @ map Lit ''b/'' @
      [Group (NoneOf [CHR '' '', CHR 0x0A, CHR 0x22]), Opt (CHR 0x22)])"

text \<open>\<^verbatim>\<open>MERGE_CONFLICT_RE = re.compile(r'^diff --cc ([^ \n]*)')\<close>\<close>

definition MERGE_CONFLICT_RE :: regex where
  "MERGE_CONFLICT_RE = Anchored
     (map Lit ''diff --cc '' @ [Group (NoneOf [CHR '' '', CHR 0x0A])])"

text \<open>\<^verbatim>\<open>HUNK_LINE_RE = re.compile(r'\+([0-9]*)')\<close>\<close>

definition HUNK_LINE_RE :: regex where
  "HUNK_LINE_RE = Unanchored [Lit CHR ''+'', Group (OneOf digits)]"

section \<open>GitDiffTool: the unified-diff parser\<close>

subsection \<open>Pass 1: sections by source file\<close>

text \<open>
  \<^verbatim>\<open>_parse_source_line\<close>: the path named by a header line. (Python names with a leading
  underscore lose it here, an Isabelle name cannot start with one.)
\<close>

definition parse_source_line :: "string \<Rightarrow> exn + string" where
  "parse_source_line line =
     (if contains line ''--git'' then
        (case findall SRC_FILE_RE line of
           [g] \<Rightarrow> Inr g
         | _ \<Rightarrow> Inl (Exception (''Could not parse source path in line '' @ quoted line)))
      else if contains line ''--cc'' then
        (case findall MERGE_CONFLICT_RE line of
           [g] \<Rightarrow> Inr g
         | _ \<Rightarrow> Inl (Exception (''Could not parse source path in line '' @ quoted line)))
      else Inl (Exception (''Do not recognize format of source in line '' @ quoted line)))"

text \<open>
  A Python \<^verbatim>\<open>dict\<close> is an association list with distinct keys, in insertion order,
  the order in which the dictionaries of Python 3.7 and later are iterated.
  \<open>dict_set\<close> is \<^verbatim>\<open>d[k] = v\<close>: a present key keeps its place, a new key goes last.
  \<open>dict_append\<close> is \<^verbatim>\<open>d[k].append(x)\<close>, a \<^verbatim>\<open>KeyError\<close> when \<open>k\<close> is missing.
\<close>

type_synonym ('k, 'v) dict = "('k \<times> 'v) list"

fun dict_set :: "('k, 'v) dict \<Rightarrow> 'k \<Rightarrow> 'v \<Rightarrow> ('k, 'v) dict" where
  "dict_set [] k v = [(k, v)]"
| "dict_set ((k', v') # d) k v =
     (if k' = k then (k, v) # d else (k', v') # dict_set d k v)"

fun dict_append :: "('k, 'a list) dict \<Rightarrow> 'k \<Rightarrow> 'a \<Rightarrow> exn + ('k, 'a list) dict" where
  "dict_append [] k x = Inl KeyError"
| "dict_append ((k', xs) # d) k x =
     (if k' = k then Inr ((k', xs @ [x]) # d)
      else (case dict_append d k x of
              Inl e \<Rightarrow> Inl e
            | Inr d' \<Rightarrow> Inr ((k', xs) # d')))"

text \<open>The three local variables of the loop of \<^verbatim>\<open>_parse_source_sections\<close>.\<close>

record sections_state =
  source_dict :: "(string, string list) dict"
  src_path :: "string option"
  found_hunk :: bool

definition is_header :: "string \<Rightarrow> bool" where
  "is_header line = (startswith line ''diff --git'' \<or> startswith line ''diff --cc'')"

definition is_hunk :: "string \<Rightarrow> bool" where
  "is_hunk line = startswith line ''@@''"

text \<open>One pass through the body of the \<^verbatim>\<open>for line in diff_str.split('\n')\<close> loop.\<close>

definition sections_step :: "sections_state \<Rightarrow> string \<Rightarrow> exn + sections_state" where
  "sections_step st line =
     (if is_header line then
        (case parse_source_line line of
           Inl e \<Rightarrow> Inl e
         | Inr p \<Rightarrow>
             Inr \<lparr>source_dict =
                    (if p \<notin> set (map fst (source_dict st))
                     then dict_set (source_dict st) p []
                     else source_dict st),
                  src_path = Some p,
                  found_hunk = False\<rparr>)
      else if found_hunk st \<or> is_hunk line then
        (case src_path st of
           Some p \<Rightarrow>
             (case dict_append (source_dict st) p line of
                Inl e \<Rightarrow> Inl e
              | Inr d \<Rightarrow> Inr (st\<lparr>source_dict := d, found_hunk := True\<rparr>))
         | None \<Rightarrow>
             if is_hunk line
             then Inl (Exception (''Hunk has no source file: '' @ quoted line))
             else Inr (st\<lparr>found_hunk := True\<rparr>))
      else Inr st)"

fun sections_loop :: "sections_state \<Rightarrow> string list \<Rightarrow> exn + sections_state" where
  "sections_loop st [] = Inr st"
| "sections_loop st (line # rest) =
     (case sections_step st line of
        Inl e \<Rightarrow> Inl e
      | Inr st' \<Rightarrow> sections_loop st' rest)"

definition sections_init :: sections_state where
  "sections_init = \<lparr>source_dict = [], src_path = None, found_hunk = False\<rparr>"

definition parse_source_sections :: "string \<Rightarrow> exn + (string, string list) dict" where
  "parse_source_sections diff_str =
     (case sections_loop sections_init (split_str diff_str [CHR 0x0A]) of
        Inl e \<Rightarrow> Inl e
      | Inr st \<Rightarrow> Inr (source_dict st))"

subsection \<open>Pass 2: line numbers of one source file\<close>

text \<open>
  \<^verbatim>\<open>_parse_hunk_line\<close>: the number after the \<^verbatim>\<open>+\<close> of a hunk line
  \<^verbatim>\<open>@@ -k,l +n,m @@ TEXT\<close>.
\<close>

definition parse_hunk_line :: "string \<Rightarrow> exn + int" where
  "parse_hunk_line line =
     (case split_str line ''@@'' of
        c0 # hunk_info # cs \<Rightarrow>
          (case findall HUNK_LINE_RE hunk_info of
             [g] \<Rightarrow>
               (case py_int g of
                  Some n \<Rightarrow> Inr n
                | None \<Rightarrow>
                    Inl (Exception (''Could not parse '' @ quoted g @ '' as a line number'')))
           | _ \<Rightarrow> Inl (Exception (''Could not find start of hunk in line '' @ quoted line)))
      | _ \<Rightarrow> Inl (Exception (''Could not parse hunk in line '' @ quoted line)))"

text \<open>The four local variables of the loop of \<^verbatim>\<open>_parse_lines\<close>.\<close>

record lines_state =
  added_lines :: "int list"
  deleted_lines :: "int list"
  current_line_new :: "int option"
  current_line_old :: "int option"

definition lines_step :: "lines_state \<Rightarrow> string \<Rightarrow> exn + lines_state" where
  "lines_step st line =
     (if startswith line ''@@'' then
        (case parse_hunk_line line of
           Inl e \<Rightarrow> Inl e
         | Inr line_num \<Rightarrow>
             Inr (st\<lparr>current_line_new := Some line_num, current_line_old := Some line_num\<rparr>))
      else if startswith line ''+'' then
        (case current_line_new st of
           Some n \<Rightarrow> Inr (st\<lparr>added_lines := added_lines st @ [n],
                               current_line_new := Some (n + 1)\<rparr>)
         | None \<Rightarrow> Inr st)
      else if startswith line ''-'' then
        (case current_line_old st of
           Some n \<Rightarrow> Inr (st\<lparr>deleted_lines := deleted_lines st @ [n],
                               current_line_old := Some (n + 1)\<rparr>)
         | None \<Rightarrow> Inr st)
      else
        Inr (st\<lparr>current_line_old := map_option (\<lambda>n. n + 1) (current_line_old st),
                 current_line_new := map_option (\<lambda>n. n + 1) (current_line_new st)\<rparr>))"

fun lines_loop :: "lines_state \<Rightarrow> string list \<Rightarrow> exn + lines_state" where
  "lines_loop st [] = Inr st"
| "lines_loop st (line # rest) =
     (case lines_step st line of
        Inl e \<Rightarrow> Inl e
      | Inr st' \<Rightarrow> lines_loop st' rest)"

definition lines_init :: lines_state where
  "lines_init = \<lparr>added_lines = [], deleted_lines = [],
                 current_line_new = None, current_line_old = None\<rparr>"

definition parse_lines :: "string list \<Rightarrow> exn + (int list \<times> int list)" where
  "parse_lines diff_lines =
     (case lines_loop lines_init diff_lines of
        Inl e \<Rightarrow> Inl e
      | Inr st \<Rightarrow> Inr (added_lines st, deleted_lines st))"

subsection \<open>The whole parse\<close>

text \<open>
  Modelled from the spec: \<^verbatim>\<open>make_sorted_dict\<close> of \<^verbatim>\<open>ciocheck.utils\<close>, which is not
  among the sources. The spec has the mapping materialised sorted by key.
\<close>

definition make_sorted_dict :: "(string, 'v) dict \<Rightarrow> (string, 'v) dict" where
  "make_sorted_dict d = sort_key fst d"

text \<open>
  The loop of \<^verbatim>\<open>_parse_diff_str\<close> over \<^verbatim>\<open>sections_dict.items()\<close>. The method reads
  one attribute of \<^verbatim>\<open>self\<close>, the property \<^verbatim>\<open>top_level\<close>, which is \<^verbatim>\<open>None\<close> when the
  root could not be resolved; \<^verbatim>\<open>os.path.join\<close> then raises \<^verbatim>\<open>TypeError\<close>.
\<close>

fun diff_dict_loop ::
  "string option \<Rightarrow> (string, string list) dict \<Rightarrow> (string, int list \<times> int list) dict
     \<Rightarrow> exn + (string, int list \<times> int list) dict" where
  "diff_dict_loop top_level [] diff_dict = Inr diff_dict"
| "diff_dict_loop top_level ((src, diff_lines) # rest) diff_dict =
     (case top_level of
        None \<Rightarrow> Inl TypeError
      | Some t \<Rightarrow>
          (case parse_lines diff_lines of
             Inl e \<Rightarrow> Inl e
           | Inr v \<Rightarrow>
               diff_dict_loop top_level rest (dict_set diff_dict (os_path_join t src) v)))"

definition parse_diff_str ::
  "string option \<Rightarrow> string \<Rightarrow> exn + (string, int list \<times> int list) dict" where
  "parse_diff_str top_level diff_str =
     (case parse_source_sections diff_str of
        Inl e \<Rightarrow> Inl e
      | Inr sections_dict \<Rightarrow>
          (case diff_dict_loop top_level sections_dict [] of
             Inl e \<Rightarrow> Inl e
           | Inr diff_dict \<Rightarrow> Inr (make_sorted_dict diff_dict)))"

section \<open>GitDiffTool: running git\<close>

text \<open>
  \<^verbatim>\<open>run_command(args, cwd)\<close> of \<^verbatim>\<open>ciocheck.utils\<close> is the external command runner: it
  returns the captured \<^verbatim>\<open>(output, error)\<close>. It is a parameter \<open>run\<close> of everything
  that calls it; one \<open>run\<close> is one state of the repositories. \<^verbatim>\<open>print(error)\<close> is not
  modelled.
\<close>

type_synonym command_runner = "string list \<Rightarrow> string \<Rightarrow> string \<times> string"




text \<open>
  The property \<^verbatim>\<open>top_level\<close> of \<^verbatim>\<open>GitDiffTool\<close>: \<^verbatim>\<open>None\<close> when git reports an error,
  else the first line of the output. The instance caches a resolved value in
  \<^verbatim>\<open>_top_level\<close>; with one \<open>run\<close> the cached value is the value computed again, so the
  cache is not modelled. The same holds for \<^verbatim>\<open>_is_repo\<close> below.
\<close>

definition git_top_level :: "command_runner \<Rightarrow> string \<Rightarrow> string option" where
  "git_top_level run path =
     (case run [''git'', ''rev-parse'', ''--show-toplevel'', ''--encoding=utf-8''] path of
        (output, error) \<Rightarrow>
          if error \<noteq> [] then None
          else (case split_str output [CHR 0x0A] of
                  [] \<Rightarrow> Some []
                | first # others \<Rightarrow> Some first))"

definition git_is_repo :: "command_runner \<Rightarrow> string \<Rightarrow> bool" where
  "git_is_repo run path =
     (case run [''git'', ''rev-parse''] path of
        (output, error) \<Rightarrow>
          if error \<noteq> [] then False
          else (\<not> error \<noteq> [] \<and> \<not> output \<noteq> []))"
















section \<open>NoDiffTool, HgDiffTool and the choice of a tool\<close>

text \<open>\<^verbatim>\<open>range(n)\<close>: the numbers from 0 up to \<open>n - 1\<close>.\<close>

definition py_range :: "nat \<Rightarrow> int list" where
  "py_range n = map int [0..<n]"

text \<open>
  \<^verbatim>\<open>get_files(paths=...)\<close> of \<^verbatim>\<open>ciocheck.utils\<close> is the external file discovery, a
  parameter \<open>get_files\<close>. \<^verbatim>\<open>_get_files_helper\<close> returns the paths, or with
  \<^verbatim>\<open>lines=True\<close> the dictionary built from them: one definition for each.
\<close>

definition get_files_helper :: "(string list \<Rightarrow> string list) \<Rightarrow> string \<Rightarrow> string list" where
  "get_files_helper get_files path = get_files [path]"

definition get_files_helper_lines ::
  "(string list \<Rightarrow> string list) \<Rightarrow> string \<Rightarrow> (string, int list \<times> int list) dict" where
  "get_files_helper_lines get_files path =
     foldl (\<lambda>paths_dic p. dict_set paths_dic p ([- 1], py_range 100000)) [] (get_files [path])"

definition no_commited_file_lines ::
  "(string list \<Rightarrow> string list) \<Rightarrow> string \<Rightarrow> string \<Rightarrow> (string, int list \<times> int list) dict" where
  "no_commited_file_lines get_files path branch = get_files_helper_lines get_files path"

definition no_staged_file_lines ::
  "(string list \<Rightarrow> string list) \<Rightarrow> string \<Rightarrow> (string, int list \<times> int list) dict" where
  "no_staged_file_lines get_files path = get_files_helper_lines get_files path"

definition no_unstaged_file_lines ::
  "(string list \<Rightarrow> string list) \<Rightarrow> string \<Rightarrow> (string, int list \<times> int list) dict" where
  "no_unstaged_file_lines get_files path = get_files_helper_lines get_files path"

text \<open>An instance of one of the three tool classes, made with a path.\<close>

datatype tool = GitDiffTool string | HgDiffTool string | NoDiffTool string

fun tool_is_repo :: "command_runner \<Rightarrow> tool \<Rightarrow> bool" where
  "tool_is_repo run (GitDiffTool path) = git_is_repo run path"
| "tool_is_repo run (HgDiffTool path) = False"
| "tool_is_repo run (NoDiffTool path) = True"

fun tool_top_level :: "command_runner \<Rightarrow> tool \<Rightarrow> string option" where
  "tool_top_level run (GitDiffTool path) = git_top_level run path"
| "tool_top_level run (HgDiffTool path) = Some []"
| "tool_top_level run (NoDiffTool path) = Some path"

definition TOOLS :: "(string \<Rightarrow> tool) list" where
  "TOOLS = [GitDiffTool, HgDiffTool, NoDiffTool]"

text \<open>
  The inner loop of \<^verbatim>\<open>DiffTool.__init__\<close>: the first tool of the list that reports a
  repository at \<open>path\<close>, where the loop breaks.
\<close>

fun select_tool :: "command_runner \<Rightarrow> (string \<Rightarrow> tool) list \<Rightarrow> string \<Rightarrow> tool option" where
  "select_tool run [] path = None"
| "select_tool run (diff_tool # others) path =
     (if tool_is_repo run (diff_tool path) then Some (diff_tool path)
      else select_tool run others path)"

text \<open>The outer loop: \<^verbatim>\<open>self.diff_tools\<close>, keyed by top level, the first tool kept.\<close>

fun diff_tools_loop ::
  "command_runner \<Rightarrow> string list \<Rightarrow> (string option, tool) dict \<Rightarrow> (string option, tool) dict" where
  "diff_tools_loop run [] diff_tools = diff_tools"
| "diff_tools_loop run (path # paths) diff_tools =
     (case select_tool run TOOLS path of
        None \<Rightarrow> diff_tools_loop run paths diff_tools
      | Some tool \<Rightarrow>
          diff_tools_loop run paths
            (if tool_top_level run tool \<notin> set (map fst diff_tools)
             then dict_set diff_tools (tool_top_level run tool) tool
             else diff_tools))"

definition DiffTool_init :: "command_runner \<Rightarrow> string list \<Rightarrow> (string option, tool) dict" where
  "DiffTool_init run paths = diff_tools_loop run paths []"

section \<open>What the sectioning pass is to compute\<close>

text \<open>
  The lines of a diff text are a preamble and then sections, each a header line with
  the lines up to the next header. Of a section the lines from its first hunk marker on
  are retained. A path accumulates the retained lines of all the sections whose header
  names it, in text order.
\<close>

definition spec_retained :: "string list \<Rightarrow> string list" where
  "spec_retained body = dropWhile (\<lambda>line. \<not> is_hunk line) body"

fun spec_sections_of :: "string list \<Rightarrow> string list \<times> (string \<times> string list) list" where
  "spec_sections_of [] = ([], [])"
| "spec_sections_of (line # rest) =
     (case spec_sections_of rest of
        (body, sections) \<Rightarrow>
          if is_header line then ([], (line, body) # sections)
          else (line # body, sections))"

definition spec_runs :: "string \<Rightarrow> string list \<Rightarrow> string list list" where
  "spec_runs p lines =
     map (\<lambda>(header, body). spec_retained body)
       (filter (\<lambda>(header, body). parse_source_line header = Inr p)
          (snd (spec_sections_of lines)))"

definition spec_accumulated :: "string \<Rightarrow> string list \<Rightarrow> string list" where
  "spec_accumulated p lines = concat (spec_runs p lines)"

text \<open>The lines that a dictionary of sections holds for a path, none for a missing path.\<close>

definition lines_of :: "(string, string list) dict \<Rightarrow> string \<Rightarrow> string list" where
  "lines_of d p = (case map_of d p of None \<Rightarrow> [] | Some ls \<Rightarrow> ls)"

section \<open>Example diff texts\<close>

text \<open>The diff text of the concrete scenario of the specification.\<close>

definition spec_test_6 :: string where
  "spec_test_6 =
     ''diff --git a/foo.py b/foo.py'' @ [CHR 0x0A] @
     ''index 111..222 100644'' @ [CHR 0x0A] @
     ''--- a/foo.py'' @ [CHR 0x0A] @
     ''+++ b/foo.py'' @ [CHR 0x0A] @
     ''@@ -1,3 +1,4 @@'' @ [CHR 0x0A] @
     '' line1'' @ [CHR 0x0A] @
     ''+line2'' @ [CHR 0x0A] @
     '' line3'' @ [CHR 0x0A] @
     ''-line4'' @ [CHR 0x0A] @
     '' line5''"

text \<open>A diff text in which two headers name the path \<open>f\<close>.\<close>

definition same_path_text :: string where
  "same_path_text =
     ''diff --git a/f b/f'' @ [CHR 0x0A] @
     ''@@ -1 +1 @@'' @ [CHR 0x0A] @
     ''+x'' @ [CHR 0x0A] @
     ''diff --git a/g b/g'' @ [CHR 0x0A] @
     ''diff --git a/f b/f'' @ [CHR 0x0A] @
     ''index 1..2'' @ [CHR 0x0A] @
     ''@@ -5 +7 @@'' @ [CHR 0x0A] @
     ''+y'' @ [CHR 0x0A] @
     ''-z''"

text \<open>
  A diff text in which two headers name the path \<open>f\<close> and a third names \<open>/r/f\<close>, the
  key of \<open>f\<close> under the top level \<open>/r\<close>.
\<close>

definition colliding_key_text :: string where
  "colliding_key_text =
     ''diff --git a/f b/f'' @ [CHR 0x0A] @
     ''@@ -1 +1 @@'' @ [CHR 0x0A] @
     ''+x'' @ [CHR 0x0A] @
     ''diff --git a/f b/f'' @ [CHR 0x0A] @
     ''@@ -5 +7 @@'' @ [CHR 0x0A] @
     ''+y'' @ [CHR 0x0A] @
     ''-z'' @ [CHR 0x0A] @
     ''diff --git a/f b//r/f'' @ [CHR 0x0A] @
     ''@@ -1 +40 @@'' @ [CHR 0x0A] @
     ''+w''"

text \<open>
  A diff text with two hunks: the file loses its first four lines and its eighth.
\<close>

definition two_hunk_text :: string where
  "two_hunk_text =
     ''diff --git a/f b/f'' @ [CHR 0x0A] @
     ''--- a/f'' @ [CHR 0x0A] @
     ''+++ b/f'' @ [CHR 0x0A] @
     ''@@ -1,5 +1 @@'' @ [CHR 0x0A] @
     ''-a'' @ [CHR 0x0A] @
     ''-b'' @ [CHR 0x0A] @
     ''-c'' @ [CHR 0x0A] @
     ''-d'' @ [CHR 0x0A] @
     '' e'' @ [CHR 0x0A] @
     ''@@ -7,3 +3,2 @@'' @ [CHR 0x0A] @
     '' g'' @ [CHR 0x0A] @
     ''-h'' @ [CHR 0x0A] @
     '' i''"

text \<open>A diff text with one hunk.\<close>

definition one_hunk_text :: string where
  "one_hunk_text =
     ''diff --git a/f b/f'' @ [CHR 0x0A] @
     ''@@ -1,3 +1,3 @@'' @ [CHR 0x0A] @
     ''+x'' @ [CHR 0x0A] @
     ''+y'' @ [CHR 0x0A] @
     ''-z'' @ [CHR 0x0A] @
     ''-w'' @ [CHR 0x0A] @
     '' c''"

text \<open>A diff text that ends with a second header for the path \<open>f\<close>.\<close>

definition repeated_header_text :: string where
  "repeated_header_text =
     ''diff --git a/f b/f'' @ [CHR 0x0A] @
     ''@@ -1 +1 @@'' @ [CHR 0x0A] @
     ''+x'' @ [CHR 0x0A] @
     ''diff --git a/f b/f''"



text \<open>A command runner for a place where git finds no repository.\<close>

definition no_git_run :: command_runner where
  "no_git_run args cwd = ([], ''fatal: not a git repository'')"

section \<open>The concrete scenario\<close>

lemma sections_spec_test_6:
  "parse_source_sections spec_test_6 =
     Inr [(''foo.py'',
           [''@@ -1,3 +1,4 @@'', '' line1'', ''+line2'', '' line3'', ''-line4'', '' line5''])]"
  by code_simp

lemma lines_spec_test_6:
  "parse_lines [''@@ -1,3 +1,4 @@'', '' line1'', ''+line2'', '' line3'', ''-line4'', '' line5'']
     = Inr ([2], [3])"
  by code_simp

text \<open>
  Claim C1, as the code has it. The sectioning pass gives the one path \<open>foo.py\<close> the six
  lines from the hunk marker on, and the line accounting of these lines is
  \<open>added = [2]\<close>, \<open>deleted = [3]\<close>: both counters start at 1, the context line
  \<open>line1\<close> moves both to 2, the added \<open>line2\<close> moves only the new counter, the context
  line \<open>line3\<close> moves the old counter to 3, where the deleted \<open>line4\<close> is recorded.
  \<^verbatim>\<open>_parse_diff_str\<close> returns this one entry under the path joined to the top level.
\<close>

theorem C1_spec_test_6:
  "parse_source_sections spec_test_6 =
     Inr [(''foo.py'',
           [''@@ -1,3 +1,4 @@'', '' line1'', ''+line2'', '' line3'', ''-line4'', '' line5''])]
   \<and> parse_lines
       [''@@ -1,3 +1,4 @@'', '' line1'', ''+line2'', '' line3'', ''-line4'', '' line5'']
     = Inr ([2], [3])
   \<and> parse_diff_str (Some t) spec_test_6 = Inr [(os_path_join t ''foo.py'', ([2], [3]))]"
  by (simp add: sections_spec_test_6 lines_spec_test_6 parse_diff_str_def
      make_sorted_dict_def)

text \<open>
  Claim C1 as stated fails: with the empty top level, where the key is \<open>foo.py\<close> itself,
  the result is not the mapping with \<open>deleted = [4]\<close>.
\<close>

theorem C1_counterexample:
  "parse_diff_str (Some []) spec_test_6 = Inr [(''foo.py'', ([2], [3]))]
   \<and> parse_diff_str (Some []) spec_test_6 \<noteq> Inr [(''foo.py'', ([2], [4]))]"
  by (simp add: sections_spec_test_6 lines_spec_test_6 parse_diff_str_def
      make_sorted_dict_def os_path_join_def startswith_def)

section \<open>Prefixes\<close>

lemma startswith_Nil: "startswith s [] = True"
  by (simp add: startswith_def)

lemma startswith_Cons:
  "startswith s (c # p) = (case s of [] \<Rightarrow> False | x # xs \<Rightarrow> x = c \<and> startswith xs p)"
  by (cases s) (auto simp: startswith_def)

lemma hunk_not_header: "is_hunk line \<Longrightarrow> \<not> is_header line"
  by (cases line) (auto simp: is_hunk_def is_header_def startswith_Cons)

section \<open>A hunk before any header\<close>

lemma sections_loop_first_hunk:
  assumes "\<forall>l \<in> set pre. \<not> is_header l" and "is_hunk line"
  shows "\<exists>l. find is_hunk (pre @ [line]) = Some l \<and>
           sections_loop sections_init (pre @ line # post)
             = Inl (Exception (''Hunk has no source file: '' @ quoted l))"
  using assms
proof (induction pre)
  case Nil
  then show ?case
    by (simp add: sections_step_def hunk_not_header sections_init_def)
next
  case (Cons a pre)
  show ?case
  proof (cases "is_hunk a")
    case True
    then show ?thesis
      by (simp add: sections_step_def hunk_not_header sections_init_def)
  next
    case False
    with Cons.prems have "sections_step sections_init a = Inr sections_init"
      by (simp add: sections_step_def sections_init_def)
    with Cons False show ?thesis by simp
  qed
qed

text \<open>
  Claim C3. When a line that starts with \<open>@@\<close> comes before every header line of the
  diff text, the sectioning pass raises the exception whose message quotes the first
  such line, and so does \<^verbatim>\<open>_parse_diff_str\<close>, whatever the top level: no result is
  returned.
\<close>

theorem C3_hunk_before_header:
  assumes "split_str diff_str [CHR 0x0A] = pre @ line # post"
    and "\<forall>l \<in> set pre. \<not> is_header l"
    and "is_hunk line"
  shows "\<exists>l. find is_hunk (pre @ [line]) = Some l \<and>
           parse_source_sections diff_str
             = Inl (Exception (''Hunk has no source file: '' @ quoted l)) \<and>
           parse_diff_str top_level diff_str
             = Inl (Exception (''Hunk has no source file: '' @ quoted l))"
proof -
  from sections_loop_first_hunk [OF assms(2,3), of post]
  obtain l where "find is_hunk (pre @ [line]) = Some l"
    and "sections_loop sections_init (pre @ line # post)
           = Inl (Exception (''Hunk has no source file: '' @ quoted l))"
    by blast
  then show ?thesis
    by (simp add: parse_source_sections_def parse_diff_str_def assms(1))
qed

lemma split_hunk_first_text:
  "split_str (''index 1'' @ [CHR 0x0A] @ ''@@ -1 +1 @@'' @ [CHR 0x0A] @ ''diff --git a/f b/f'')
     [CHR 0x0A]
   = [''index 1''] @ ''@@ -1 +1 @@'' # [''diff --git a/f b/f'']"
  by code_simp

theorem C3_witness:
  "parse_diff_str (Some ''/repo'')
     (''index 1'' @ [CHR 0x0A] @ ''@@ -1 +1 @@'' @ [CHR 0x0A] @ ''diff --git a/f b/f'')
     = Inl (Exception (''Hunk has no source file: '' @ quoted ''@@ -1 +1 @@''))"
proof -
  have a: "\<forall>l \<in> set [''index 1'']. \<not> is_header l" by code_simp
  have b: "is_hunk ''@@ -1 +1 @@''" by code_simp
  have c: "find is_hunk ([''index 1''] @ [''@@ -1 +1 @@'']) = Some ''@@ -1 +1 @@''"
    by code_simp
  from C3_hunk_before_header [OF split_hunk_first_text a b, of "Some ''/repo''"] c
  show ?thesis by auto
qed

section \<open>The hunk line\<close>

lemma rmatch_group_last:
  "rmatch [Group k] s = Some (takeWhile (in_cls k) s, dropWhile (in_cls k) s)"
  by (simp add: takeWhile_eq_take [symmetric] dropWhile_eq_drop [symmetric])

lemma scan_hunk:
  "scan [Lit CHR ''+'', Group k] s =
     (case s of
        [] \<Rightarrow> []
      | x # xs \<Rightarrow>
          if x = CHR ''+''
          then takeWhile (in_cls k) xs # scan [Lit CHR ''+'', Group k] (dropWhile (in_cls k) xs)
          else scan [Lit CHR ''+'', Group k] xs)"
proof (cases s)
  case Nil
  then show ?thesis by (subst scan.simps) simp
next
  case (Cons x xs)
  have "length (dropWhile (in_cls k) xs) < Suc (length xs)"
    by (simp add: length_dropWhile_le less_Suc_eq_le)
  with Cons show ?thesis
    by (subst scan.simps) (simp add: rmatch_group_last del: rmatch.simps(5))
qed

lemma filter_dropWhile_disjoint:
  "(\<And>x. Q x \<Longrightarrow> \<not> P x) \<Longrightarrow> filter P (dropWhile Q xs) = filter P xs"
  by (induction xs) auto

lemma scan_hunk_length:
  assumes "\<not> in_cls k CHR ''+''"
  shows "length (scan [Lit CHR ''+'', Group k] s) = length (filter (\<lambda>c. c = CHR ''+'') s)"
proof (induction s rule: length_induct)
  case (1 s)
  show ?case
  proof (cases s)
    case Nil
    then show ?thesis by (subst scan_hunk) simp
  next
    case (Cons x xs)
    show ?thesis
    proof (cases "x = CHR ''+''")
      case True
      have "length (dropWhile (in_cls k) xs) < length s"
        using Cons by (simp add: length_dropWhile_le less_Suc_eq_le)
      with 1 have "length (scan [Lit CHR ''+'', Group k] (dropWhile (in_cls k) xs))
          = length (filter (\<lambda>c. c = CHR ''+'') (dropWhile (in_cls k) xs))"
        by blast
      also have "\<dots> = length (filter (\<lambda>c. c = CHR ''+'') xs)"
        using assms by (subst filter_dropWhile_disjoint) auto
      finally show ?thesis
        using Cons True by (subst scan_hunk) simp
    next
      case False
      with Cons 1 show ?thesis by (subst scan_hunk) simp
    qed
  qed
qed

lemma scan_hunk_single:
  assumes "\<not> in_cls k CHR ''+''"
    and "length (filter (\<lambda>c. c = CHR ''+'') s) = 1"
  shows "scan [Lit CHR ''+'', Group k] s
           = [takeWhile (in_cls k) (tl (dropWhile (\<lambda>c. c \<noteq> CHR ''+'') s))]"
  using assms(2)
proof (induction s)
  case Nil
  then show ?case by simp
next
  case (Cons x xs)
  show ?case
  proof (cases "x = CHR ''+''")
    case True
    with Cons.prems have "length (filter (\<lambda>c. c = CHR ''+'') xs) = 0" by simp
    then have "length (filter (\<lambda>c. c = CHR ''+'') (dropWhile (in_cls k) xs)) = 0"
      using assms(1) by (subst filter_dropWhile_disjoint) auto
    then have "scan [Lit CHR ''+'', Group k] (dropWhile (in_cls k) xs) = []"
      using scan_hunk_length [OF assms(1), of "dropWhile (in_cls k) xs"] by simp
    with True show ?thesis by (subst scan_hunk) simp
  next
    case False
    with Cons show ?thesis by (subst scan_hunk) simp
  qed
qed

lemma split_str_not_Nil: "split_str s sep \<noteq> []"
  by (induction s sep rule: split_str.induct) (auto split: list.splits)

lemma split_hunk_line:
  assumes "startswith line ''@@''"
  shows "\<exists>info cs. split_str line ''@@'' = [] # info # cs"
proof -
  from assms obtain rest where l: "line = CHR ''@'' # CHR ''@'' # rest"
    by (cases line; cases "tl line") (auto simp: startswith_Cons)
  obtain info cs where "split_str rest ''@@'' = info # cs"
    using split_str_not_Nil [of rest "''@@''"] by (cases "split_str rest ''@@''") auto
  with l show ?thesis by (simp add: startswith_Cons startswith_Nil)
qed

lemma findall_hunk_length:
  "length (findall HUNK_LINE_RE info) = length (filter (\<lambda>c. c = CHR ''+'') info)"
  using scan_hunk_length [of "OneOf digits" info] by (simp add: HUNK_LINE_RE_def digits_def)

lemma findall_hunk_single:
  assumes "length (filter (\<lambda>c. c = CHR ''+'') info) = 1"
  shows "findall HUNK_LINE_RE info
           = [takeWhile (\<lambda>c. c \<in> set digits) (tl (dropWhile (\<lambda>c. c \<noteq> CHR ''+'') info))]"
proof -
  have np: "\<not> in_cls (OneOf digits) CHR ''+''" by (simp add: digits_def)
  have e: "in_cls (OneOf digits) = (\<lambda>c. c \<in> set digits)" by (rule ext) simp
  from scan_hunk_single [OF np assms] show ?thesis
    by (simp add: HUNK_LINE_RE_def e)
qed

text \<open>
  Claim C7, as the code has it. For a line that starts with \<open>@@\<close>, the text between
  the first two \<open>@@\<close> is the second piece of the split. \<^verbatim>\<open>_parse_hunk_line\<close> returns
  the value of the digit run after the \<open>+\<close> of that text when the text has exactly one
  \<open>+\<close> and \<^verbatim>\<open>int\<close> converts the run: the run is not empty and has no more digits than
  the interpreter's limit. With another number of \<open>+\<close> it raises an exception whose
  message quotes the line; with a run that \<^verbatim>\<open>int\<close> does not convert it raises an
  exception whose message quotes the run. The loop of \<^verbatim>\<open>_parse_lines\<close> passes the
  exception on, and otherwise sets both counters to the number.
\<close>

theorem C7_parse_hunk_line:
  assumes "startswith line ''@@''"
  shows "(let hunk_info = split_str line ''@@'' ! 1;
              run = takeWhile (\<lambda>c. c \<in> set digits)
                      (tl (dropWhile (\<lambda>c. c \<noteq> CHR ''+'') hunk_info))
          in parse_hunk_line line =
               (if length (filter (\<lambda>c. c = CHR ''+'') hunk_info) \<noteq> 1
                then Inl (Exception (''Could not find start of hunk in line '' @ quoted line))
                else if run = [] \<or> int_max_str_digits < length run
                then Inl (Exception (''Could not parse '' @ quoted run @ '' as a line number''))
                else Inr (foldl (\<lambda>n c. 10 * n + digit_val c) 0 run)))
       \<and> lines_step st line =
           (case parse_hunk_line line of
              Inl e \<Rightarrow> Inl e
            | Inr n \<Rightarrow> Inr (st\<lparr>current_line_new := Some n, current_line_old := Some n\<rparr>))"
proof -
  from split_hunk_line [OF assms] obtain info cs
    where sp: "split_str line ''@@'' = [] # info # cs" by blast
  let ?run = "takeWhile (\<lambda>c. c \<in> set digits) (tl (dropWhile (\<lambda>c. c \<noteq> CHR ''+'') info))"
  show ?thesis
  proof (cases "length (filter (\<lambda>c. c = CHR ''+'') info) = 1")
    case True
    then have f: "findall HUNK_LINE_RE info = [?run]"
      by (rule findall_hunk_single)
    show ?thesis
    proof (cases "?run = [] \<or> int_max_str_digits < length ?run")
      case r: True
      then have "py_int ?run = None" by (auto simp: py_int_def)
      with True r f sp assms show ?thesis
        by (simp add: parse_hunk_line_def lines_step_def Let_def)
    next
      case r: False
      then have "py_int ?run = Some (foldl (\<lambda>n c. 10 * n + digit_val c) 0 ?run)"
        by (auto simp: py_int_def dest: set_takeWhileD)
      with True r f sp assms show ?thesis
        by (simp add: parse_hunk_line_def lines_step_def Let_def)
    qed
  next
    case False
    then have "length (findall HUNK_LINE_RE info) \<noteq> 1"
      by (simp add: findall_hunk_length)
    then have "(case findall HUNK_LINE_RE info of
                  [g] \<Rightarrow> (case py_int g of
                     Some n \<Rightarrow> Inr n
                   | None \<Rightarrow> Inl (Exception (''Could not parse '' @ quoted g @ '' as a line number'')))
                | _ \<Rightarrow> Inl (Exception (''Could not find start of hunk in line '' @ quoted line)))
              = Inl (Exception (''Could not find start of hunk in line '' @ quoted line))"
      by (auto split: list.splits)
    with False sp assms show ?thesis
      by (simp add: parse_hunk_line_def lines_step_def Let_def)
  qed
qed

theorem C7_witness:
  "parse_hunk_line ''@@ -1,3 +12,4 @@ def f():'' = Inr 12
   \<and> lines_step lines_init ''@@ -1,3 +12,4 @@ def f():''
       = Inr (lines_init\<lparr>current_line_new := Some 12, current_line_old := Some 12\<rparr>)"
proof -
  have a: "startswith ''@@ -1,3 +12,4 @@ def f():'' ''@@''" by code_simp
  have b: "split_str ''@@ -1,3 +12,4 @@ def f():'' ''@@'' ! 1 = '' -1,3 +12,4 ''" by code_simp
  have k: "length (filter (\<lambda>c. c = CHR ''+'') '' -1,3 +12,4 '') = 1" by code_simp
  have r: "takeWhile (\<lambda>c. c \<in> set digits) (tl (dropWhile (\<lambda>c. c \<noteq> CHR ''+'') '' -1,3 +12,4 ''))
             = ''12''" by code_simp
  have m: "(''12'' = [] \<or> int_max_str_digits < length ''12'') = False" by code_simp
  have c: "foldl (\<lambda>n c. 10 * n + digit_val c) 0 ''12'' = 12" by code_simp
  have "parse_hunk_line ''@@ -1,3 +12,4 @@ def f():'' = Inr 12
     \<and> lines_step lines_init ''@@ -1,3 +12,4 @@ def f():'' =
       (case parse_hunk_line ''@@ -1,3 +12,4 @@ def f():'' of
              Inl e \<Rightarrow> Inl e
            | Inr n \<Rightarrow> Inr (lines_init\<lparr>current_line_new := Some n, current_line_old := Some n\<rparr>))"
    using C7_parse_hunk_line [OF a, of lines_init] unfolding Let_def b k r m c
    by (simp only: refl if_False simp_thms)
  then show ?thesis by (simp only: sum.case simp_thms)
qed

text \<open>
  Claim C7 as stated fails where it has every message identify the offending line: for
  a hunk line with no digit after its \<open>+\<close> the message does not contain the line.
\<close>

theorem C7_counterexample:
  "parse_hunk_line ''@@ -1,3 + @@''
     = Inl (Exception (''Could not parse '' @ quoted [] @ '' as a line number''))
   \<and> \<not> contains (''Could not parse '' @ quoted [] @ '' as a line number'') ''@@ -1,3 + @@''"
  by code_simp

section \<open>The line accounting of one file\<close>

lemma plus_not_hunk: "startswith line ''+'' \<Longrightarrow> \<not> startswith line ''@@''"
  by (cases line) (auto simp: startswith_Cons)

lemma minus_not_hunk: "startswith line ''-'' \<Longrightarrow> \<not> startswith line ''@@''"
  by (cases line) (auto simp: startswith_Cons)

lemma minus_not_plus: "startswith line ''-'' \<Longrightarrow> \<not> startswith line ''+''"
  by (cases line) (auto simp: startswith_Cons)

lemma lines_loop_append:
  "lines_loop st (xs @ ys) =
     (case lines_loop st xs of Inl e \<Rightarrow> Inl e | Inr st' \<Rightarrow> lines_loop st' ys)"
  by (induction xs arbitrary: st) (auto split: sum.splits)

lemma lines_loop_keeps_added:
  assumes "\<forall>l \<in> set body. \<not> startswith l ''@@'' \<and> \<not> startswith l ''+''"
  shows "\<exists>st'. lines_loop st body = Inr st' \<and> added_lines st' = added_lines st"
  using assms
proof (induction body arbitrary: st)
  case Nil
  then show ?case by simp
next
  case (Cons l body)
  then have "\<exists>st1. lines_step st l = Inr st1 \<and> added_lines st1 = added_lines st"
    by (auto simp: lines_step_def split: option.splits)
  then obtain st1 where s: "lines_step st l = Inr st1" "added_lines st1 = added_lines st"
    by blast
  from Cons obtain st' where "lines_loop st1 body = Inr st'" "added_lines st' = added_lines st1"
    by fastforce
  with s show ?case by simp
qed

lemma hunk_1_3_1_4: "parse_hunk_line ''@@ -1,3 +1,4 @@'' = Inr 1"
  by code_simp

lemma hunk_10_2_11_3: "parse_hunk_line ''@@ -10,2 +11,3 @@'' = Inr 11"
  by code_simp

lemma lines_step_hunk:
  "startswith line ''@@'' \<Longrightarrow> parse_hunk_line line = Inr n \<Longrightarrow>
     lines_step st line = Inr (st\<lparr>current_line_new := Some n, current_line_old := Some n\<rparr>)"
  by (simp add: lines_step_def)

lemma lines_step_added:
  "startswith line ''+'' \<Longrightarrow> current_line_new st = Some n \<Longrightarrow>
     lines_step st line =
       Inr (st\<lparr>added_lines := added_lines st @ [n], current_line_new := Some (n + 1)\<rparr>)"
  by (simp add: lines_step_def plus_not_hunk)

text \<open>
  Claim C4. A hunk line whose number is \<open>n\<close> sets both counters to \<open>n\<close> in every state
  of the loop, whatever the counters were, and leaves the two lists as they are. With
  the hunk \<open>@@ -1,3 +1,4 @@\<close> followed by an added line and the hunk
  \<open>@@ -10,2 +11,3 @@\<close> followed by an added line, and no other added line in the two
  bodies, \<^verbatim>\<open>_parse_lines\<close> returns \<open>added = [1, 11]\<close>.
\<close>

theorem C4_hunk_resets_counters:
  assumes "startswith line ''@@''" and "parse_hunk_line line = Inr n"
    and "startswith a1 ''+''" and "startswith a2 ''+''"
    and "\<forall>l \<in> set body1 \<union> set body2. \<not> startswith l ''@@'' \<and> \<not> startswith l ''+''"
  shows "lines_step st line
           = Inr (st\<lparr>current_line_new := Some n, current_line_old := Some n\<rparr>)
       \<and> (\<exists>deleted.
             parse_lines ([''@@ -1,3 +1,4 @@'', a1] @ body1 @ [''@@ -10,2 +11,3 @@'', a2] @ body2)
               = Inr ([1, 11], deleted))"
proof
  show "lines_step st line
          = Inr (st\<lparr>current_line_new := Some n, current_line_old := Some n\<rparr>)"
    using assms(1,2) by (rule lines_step_hunk)
next
  have h1: "startswith ''@@ -1,3 +1,4 @@'' ''@@''" and h2: "startswith ''@@ -10,2 +11,3 @@'' ''@@''"
    by (simp_all add: startswith_def)
  let ?s1 = "lines_init\<lparr>current_line_new := Some 1, current_line_old := Some 1\<rparr>"
  let ?s2 = "?s1\<lparr>added_lines := added_lines ?s1 @ [1], current_line_new := Some (1 + 1)\<rparr>"
  have "lines_loop lines_init [''@@ -1,3 +1,4 @@'', a1] = Inr ?s2"
    using lines_step_hunk [OF h1 hunk_1_3_1_4, of lines_init]
      lines_step_added [OF assms(3), of ?s1 1] by simp
  moreover obtain s3 where s3: "lines_loop ?s2 body1 = Inr s3" "added_lines s3 = added_lines ?s2"
    using lines_loop_keeps_added [of body1 ?s2] assms(5) by auto
  let ?s4 = "s3\<lparr>current_line_new := Some 11, current_line_old := Some 11\<rparr>"
  let ?s5 = "?s4\<lparr>added_lines := added_lines ?s4 @ [11], current_line_new := Some (11 + 1)\<rparr>"
  have "lines_loop s3 [''@@ -10,2 +11,3 @@'', a2] = Inr ?s5"
    using lines_step_hunk [OF h2 hunk_10_2_11_3, of s3]
      lines_step_added [OF assms(4), of ?s4 11] by simp
  moreover obtain s6 where s6: "lines_loop ?s5 body2 = Inr s6" "added_lines s6 = added_lines ?s5"
    using lines_loop_keeps_added [of body2 ?s5] assms(5) by auto
  ultimately have "lines_loop lines_init
      ([''@@ -1,3 +1,4 @@'', a1] @ body1 @ [''@@ -10,2 +11,3 @@'', a2] @ body2) = Inr s6"
    using s3 by (simp only: lines_loop_append sum.case)
  moreover have "added_lines s6 = [1, 11]"
    using s6 s3 by (simp add: lines_init_def)
  ultimately show "\<exists>deleted.
      parse_lines ([''@@ -1,3 +1,4 @@'', a1] @ body1 @ [''@@ -10,2 +11,3 @@'', a2] @ body2)
        = Inr ([1, 11], deleted)"
    by (simp add: parse_lines_def)
qed

theorem C4_witness:
  "lines_step \<lparr>added_lines = [1], deleted_lines = [], current_line_new = Some 5,
                current_line_old = Some 4\<rparr> ''@@ -10,2 +11,3 @@''
     = Inr \<lparr>added_lines = [1], deleted_lines = [], current_line_new = Some 11,
              current_line_old = Some 11\<rparr>
   \<and> (\<exists>deleted.
         parse_lines [''@@ -1,3 +1,4 @@'', ''+x'', '' c'', ''@@ -10,2 +11,3 @@'', ''+y'', ''-d'']
           = Inr ([1, 11], deleted))"
proof -
  have a: "startswith ''@@ -10,2 +11,3 @@'' ''@@''" by code_simp
  have b: "startswith ''+x'' ''+''" by code_simp
  have c: "startswith ''+y'' ''+''" by code_simp
  have d: "\<forall>l \<in> set ['' c''] \<union> set [''-d'']. \<not> startswith l ''@@'' \<and> \<not> startswith l ''+''"
    by code_simp
  from C4_hunk_resets_counters [OF a hunk_10_2_11_3 b c d,
      of "\<lparr>added_lines = [1], deleted_lines = [], current_line_new = Some 5,
           current_line_old = Some 4\<rparr>"]
  show ?thesis by simp
qed

section \<open>The sectioning pass computes the accumulated sections\<close>

lemma dict_set_absent: "k \<notin> fst ` set d \<Longrightarrow> dict_set d k v = d @ [(k, v)]"
  by (induction d) auto

lemma lines_of_absent: "k \<notin> fst ` set d \<Longrightarrow> lines_of (d @ [(k, [])]) q = lines_of d q"
  by (auto simp: lines_of_def map_add_def split: option.splits if_splits)

lemma dict_append_Inr:
  "dict_append d k x = Inr d' \<Longrightarrow>
     map fst d' = map fst d \<and> k \<in> fst ` set d \<and>
     (\<forall>q. lines_of d' q = (if q = k then lines_of d q @ [x] else lines_of d q))"
proof (induction d arbitrary: d')
  case Nil
  then show ?case by simp
next
  case (Cons a d)
  obtain k' xs where a: "a = (k', xs)" by (cases a)
  show ?case
  proof (cases "k' = k")
    case True
    with Cons.prems a show ?thesis by (auto simp: lines_of_def)
  next
    case False
    with Cons.prems a obtain d1 where d1: "dict_append d k x = Inr d1" "d' = (k', xs) # d1"
      by (auto split: sum.splits)
    from Cons.IH [OF d1(1)] d1(2) False a show ?thesis
      by (auto simp: lines_of_def)
  qed
qed

lemma spec_sections_of_header:
  "is_header line \<Longrightarrow>
     spec_sections_of (line # rest) =
       ([], (line, fst (spec_sections_of rest)) # snd (spec_sections_of rest))"
  by (simp split: prod.splits)

lemma spec_sections_of_other:
  "\<not> is_header line \<Longrightarrow>
     spec_sections_of (line # rest) =
       (line # fst (spec_sections_of rest), snd (spec_sections_of rest))"
  by (simp split: prod.splits)

lemma spec_accumulated_header:
  "is_header line \<Longrightarrow>
     spec_accumulated q (line # rest) =
       (if parse_source_line line = Inr q then spec_retained (fst (spec_sections_of rest)) else [])
       @ spec_accumulated q rest"
  by (simp add: spec_accumulated_def spec_runs_def spec_sections_of_header del: spec_sections_of.simps)

lemma spec_accumulated_other:
  "\<not> is_header line \<Longrightarrow> spec_accumulated q (line # rest) = spec_accumulated q rest"
  by (simp add: spec_accumulated_def spec_runs_def spec_sections_of_other del: spec_sections_of.simps)

lemma sections_loop_refines:
  assumes "sections_loop st lines = Inr st'"
  shows "lines_of (source_dict st') q =
           lines_of (source_dict st) q
           @ (if src_path st = Some q
              then (if found_hunk st then fst (spec_sections_of lines)
                    else spec_retained (fst (spec_sections_of lines)))
              else [])
           @ spec_accumulated q lines"
  using assms
proof (induction lines arbitrary: st)
  case Nil
  then show ?case
    by (simp add: spec_accumulated_def spec_runs_def spec_retained_def)
next
  case (Cons line rest)
  from Cons.prems obtain st1 where
    step: "sections_step st line = Inr st1" and loop: "sections_loop st1 rest = Inr st'"
    by (auto split: sum.splits)
  note IH = Cons.IH [OF loop]
  show ?case
  proof (cases "is_header line")
    case True
    with step obtain p where p: "parse_source_line line = Inr p"
      and st1: "st1 = \<lparr>source_dict =
                    (if p \<notin> set (map fst (source_dict st))
                     then dict_set (source_dict st) p []
                     else source_dict st),
                  src_path = Some p, found_hunk = False\<rparr>"
      by (auto simp: sections_step_def split: sum.splits)
    have "lines_of (source_dict st1) q = lines_of (source_dict st) q"
      using st1 by (auto simp: dict_set_absent lines_of_absent)
    with IH st1 p True show ?thesis
      by (auto simp: spec_accumulated_header spec_sections_of_header spec_retained_def
          simp del: spec_sections_of.simps)
  next
    case False
    note nh = False
    show ?thesis
    proof (cases "found_hunk st \<or> is_hunk line")
      case False
      with nh step have "st1 = st" by (simp add: sections_step_def)
      with IH nh False show ?thesis
        by (simp add: spec_accumulated_other spec_sections_of_other spec_retained_def
            del: spec_sections_of.simps)
    next
      case True
      show ?thesis
      proof (cases "src_path st")
        case None
        with nh True step have "src_path st1 = None" "source_dict st1 = source_dict st"
          by (auto simp: sections_step_def split: if_splits)
        with IH nh None show ?thesis
          by (simp add: spec_accumulated_other)
      next
        case (Some p)
        with nh True step obtain d where
          d: "dict_append (source_dict st) p line = Inr d"
          and st1: "st1 = st\<lparr>source_dict := d, found_hunk := True\<rparr>"
          by (auto simp: sections_step_def split: sum.splits)
        from dict_append_Inr [OF d]
        have "lines_of d q = (if q = p then lines_of (source_dict st) q @ [line]
                              else lines_of (source_dict st) q)"
          by simp
        with IH nh True Some st1 show ?thesis
          by (auto simp: spec_accumulated_other spec_sections_of_other spec_retained_def
              simp del: spec_sections_of.simps)
      qed
    qed
  qed
qed

lemma sections_loop_keys:
  assumes "sections_loop st lines = Inr st'" and "distinct (map fst (source_dict st))"
  shows "distinct (map fst (source_dict st')) \<and>
         fst ` set (source_dict st') =
           fst ` set (source_dict st) \<union>
           {p. \<exists>(header, body) \<in> set (snd (spec_sections_of lines)).
                  parse_source_line header = Inr p}"
  using assms
proof (induction lines arbitrary: st)
  case Nil
  then show ?case by simp
next
  case (Cons line rest)
  from Cons.prems obtain st1 where
    step: "sections_step st line = Inr st1" and loop: "sections_loop st1 rest = Inr st'"
    by (auto split: sum.splits)
  show ?case
  proof (cases "is_header line")
    case True
    with step obtain p where p: "parse_source_line line = Inr p"
      and st1: "source_dict st1 =
                    (if p \<notin> set (map fst (source_dict st))
                     then dict_set (source_dict st) p []
                     else source_dict st)"
      by (auto simp: sections_step_def split: sum.splits)
    have d1: "distinct (map fst (source_dict st1))"
      and k1: "fst ` set (source_dict st1) = insert p (fst ` set (source_dict st))"
      using st1 Cons.prems(2) by (auto simp: dict_set_absent)
    from Cons.IH [OF loop d1] k1 p True show ?thesis
      by (auto simp: spec_sections_of_header simp del: spec_sections_of.simps)
  next
    case False
    with step have "map fst (source_dict st1) = map fst (source_dict st)"
      by (auto simp: sections_step_def split: sum.splits option.splits if_splits
          dest: dict_append_Inr)
    then have d1: "distinct (map fst (source_dict st1))"
      and k1: "fst ` set (source_dict st1) = fst ` set (source_dict st)"
      using Cons.prems(2) by (simp_all flip: set_map)
    from Cons.IH [OF loop d1] k1 False show ?thesis
      by (auto simp: spec_sections_of_other simp del: spec_sections_of.simps)
  qed
qed

lemma parse_source_sections_refines:
  assumes "parse_source_sections diff_str = Inr sections_dict"
  shows "distinct (map fst sections_dict)"
    and "fst ` set sections_dict =
           {p. \<exists>(header, body) \<in> set (snd (spec_sections_of (split_str diff_str [CHR 0x0A]))).
                  parse_source_line header = Inr p}"
    and "(p, ls) \<in> set sections_dict \<Longrightarrow> ls = spec_accumulated p (split_str diff_str [CHR 0x0A])"
proof -
  from assms obtain st' where
    loop: "sections_loop sections_init (split_str diff_str [CHR 0x0A]) = Inr st'"
    and sd: "sections_dict = source_dict st'"
    by (auto simp: parse_source_sections_def split: sum.splits)
  have i: "distinct (map fst (source_dict sections_init))" by (simp add: sections_init_def)
  from sections_loop_keys [OF loop i] sd
  show d: "distinct (map fst sections_dict)"
    and "fst ` set sections_dict =
           {p. \<exists>(header, body) \<in> set (snd (spec_sections_of (split_str diff_str [CHR 0x0A]))).
                  parse_source_line header = Inr p}"
    by (simp_all add: sections_init_def)
  assume "(p, ls) \<in> set sections_dict"
  with d have "lines_of sections_dict p = ls" by (simp add: lines_of_def)
  with sections_loop_refines [OF loop, of p] sd
  show "ls = spec_accumulated p (split_str diff_str [CHR 0x0A])"
    by (simp add: sections_init_def lines_of_def)
qed

section \<open>Runs of lines that begin at a hunk marker\<close>

lemma lines_step_prefix:
  "lines_step (st\<lparr>added_lines := A @ added_lines st, deleted_lines := D @ deleted_lines st\<rparr>) line
     = (case lines_step st line of
          Inl e \<Rightarrow> Inl e
        | Inr s \<Rightarrow> Inr (s\<lparr>added_lines := A @ added_lines s,
                            deleted_lines := D @ deleted_lines s\<rparr>))"
  by (simp add: lines_step_def split: sum.splits option.splits)

lemma lines_loop_prefix:
  "lines_loop (st\<lparr>added_lines := A @ added_lines st, deleted_lines := D @ deleted_lines st\<rparr>) ls
     = (case lines_loop st ls of
          Inl e \<Rightarrow> Inl e
        | Inr s \<Rightarrow> Inr (s\<lparr>added_lines := A @ added_lines s,
                            deleted_lines := D @ deleted_lines s\<rparr>))"
proof (induction ls arbitrary: st)
  case Nil
  then show ?case by simp
next
  case (Cons l ls)
  show ?case
  proof (cases "lines_step st l")
    case (Inl e)
    then show ?thesis by (simp add: lines_step_prefix)
  next
    case (Inr s)
    with Cons [of s] show ?thesis by (simp add: lines_step_prefix)
  qed
qed

lemma lines_loop_from_hunk:
  assumes "is_hunk h"
  shows "lines_loop st (h # rest)
     = (case lines_loop lines_init (h # rest) of
          Inl e \<Rightarrow> Inl e
        | Inr s \<Rightarrow> Inr (s\<lparr>added_lines := added_lines st @ added_lines s,
                            deleted_lines := deleted_lines st @ deleted_lines s\<rparr>))"
proof (cases "parse_hunk_line h")
  case (Inl e)
  with assms show ?thesis by (simp add: lines_step_def is_hunk_def)
next
  case (Inr n)
  let ?i = "lines_init\<lparr>current_line_new := Some n, current_line_old := Some n\<rparr>"
  have "st\<lparr>current_line_new := Some n, current_line_old := Some n\<rparr>
      = ?i\<lparr>added_lines := added_lines st @ added_lines ?i,
            deleted_lines := deleted_lines st @ deleted_lines ?i\<rparr>"
    by (simp add: lines_init_def)
  with Inr assms lines_loop_prefix [where A = "added_lines st" and D = "deleted_lines st"
      and st = ?i and ls = rest]
  show ?thesis by (simp add: lines_step_def is_hunk_def)
qed

lemma parse_lines_Nil: "parse_lines [] = Inr ([], [])"
  by (simp add: parse_lines_def lines_init_def)

lemma parse_lines_append:
  assumes "ys = [] \<or> is_hunk (hd ys)"
  shows "parse_lines (xs @ ys) =
     (case parse_lines xs of
        Inl e \<Rightarrow> Inl e
      | Inr (a1, d1) \<Rightarrow>
          (case parse_lines ys of
             Inl e \<Rightarrow> Inl e
           | Inr (a2, d2) \<Rightarrow> Inr (a1 @ a2, d1 @ d2)))"
proof (cases ys)
  case Nil
  then show ?thesis by (simp add: parse_lines_Nil split: sum.splits)
next
  case (Cons h rest)
  with assms have h: "is_hunk h" by simp
  show ?thesis
  proof (cases "lines_loop lines_init xs")
    case (Inl e)
    then show ?thesis by (simp add: parse_lines_def lines_loop_append)
  next
    case (Inr s)
    with Cons lines_loop_from_hunk [OF h, of s rest] show ?thesis
      by (simp add: parse_lines_def lines_loop_append split: sum.splits)
  qed
qed

lemma concat_runs_hunk:
  "\<forall>r \<in> set runs. r = [] \<or> is_hunk (hd r) \<Longrightarrow> concat runs = [] \<or> is_hunk (hd (concat runs))"
  by (induction runs) (auto simp: hd_append)

lemma parse_lines_concat:
  assumes "\<forall>r \<in> set runs. r = [] \<or> is_hunk (hd r)"
    and "parse_lines (concat runs) = Inr (a, d)"
  shows "\<exists>rs. map parse_lines runs = map Inr rs \<and>
               a = concat (map fst rs) \<and> d = concat (map snd rs)"
  using assms
proof (induction runs arbitrary: a d)
  case Nil
  then show ?case by (simp add: parse_lines_Nil)
next
  case (Cons r runs)
  from Cons.prems(1) have c: "concat runs = [] \<or> is_hunk (hd (concat runs))"
    by (intro concat_runs_hunk) simp
  from Cons.prems(2) parse_lines_append [OF c, of r]
  obtain a1 d1 a2 d2 where
    r: "parse_lines r = Inr (a1, d1)" and rest: "parse_lines (concat runs) = Inr (a2, d2)"
    and ad: "a = a1 @ a2" "d = d1 @ d2"
    by (auto split: sum.splits)
  from Cons.IH [OF _ rest] Cons.prems(1) obtain rs where
    "map parse_lines runs = map Inr rs" "a2 = concat (map fst rs)" "d2 = concat (map snd rs)"
    by auto
  with r ad have "map parse_lines (r # runs) = map Inr ((a1, d1) # rs) \<and>
      a = concat (map fst ((a1, d1) # rs)) \<and> d = concat (map snd ((a1, d1) # rs))"
    by simp
  then show ?case by blast
qed

lemma spec_runs_hunk: "\<forall>r \<in> set (spec_runs p lines). r = [] \<or> is_hunk (hd r)"
  using hd_dropWhile [of "\<lambda>line. \<not> is_hunk line"]
  by (auto simp: spec_runs_def spec_retained_def)

section \<open>A text with two headers for one path\<close>

lemma sections_same_path_text:
  "parse_source_sections same_path_text =
     Inr [(''f'', [''@@ -1 +1 @@'', ''+x'', ''@@ -5 +7 @@'', ''+y'', ''-z'']), (''g'', [])]"
  by code_simp

lemma runs_same_path_text:
  "spec_runs ''f'' (split_str same_path_text [CHR 0x0A])
     = [[''@@ -1 +1 @@'', ''+x''], [''@@ -5 +7 @@'', ''+y'', ''-z'']]"
  by code_simp

lemma lines_same_path_text:
  "parse_lines [''@@ -1 +1 @@'', ''+x'', ''@@ -5 +7 @@'', ''+y'', ''-z''] = Inr ([1, 7], [7])"
  "parse_lines [''@@ -1 +1 @@'', ''+x''] = Inr ([1], [])"
  "parse_lines [''@@ -5 +7 @@'', ''+y'', ''-z''] = Inr ([7], [7])"
  by code_simp+

section \<open>The counters are set at every added and deleted line\<close>

lemma lines_loop_counts:
  assumes "current_line_new st \<noteq> None" and "current_line_old st \<noteq> None"
    and "lines_loop st ls = Inr st'"
  shows "current_line_new st' \<noteq> None \<and> current_line_old st' \<noteq> None
       \<and> length (added_lines st')
           = length (added_lines st) + length (filter (\<lambda>l. startswith l ''+'') ls)
       \<and> length (deleted_lines st')
           = length (deleted_lines st) + length (filter (\<lambda>l. startswith l ''-'') ls)"
  using assms
proof (induction ls arbitrary: st)
  case Nil
  then show ?case by simp
next
  case (Cons l ls)
  from Cons.prems(3) obtain st1 where
    step: "lines_step st l = Inr st1" and loop: "lines_loop st1 ls = Inr st'"
    by (auto split: sum.splits)
  from Cons.prems(1,2) obtain n m where
    nm: "current_line_new st = Some n" "current_line_old st = Some m"
    by auto
  have "current_line_new st1 \<noteq> None \<and> current_line_old st1 \<noteq> None
       \<and> length (added_lines st1)
           = length (added_lines st) + (if startswith l ''+'' then 1 else 0)
       \<and> length (deleted_lines st1)
           = length (deleted_lines st) + (if startswith l ''-'' then 1 else 0)"
    using step nm plus_not_hunk [of l] minus_not_hunk [of l] minus_not_plus [of l]
    by (auto simp: lines_step_def split: if_splits sum.splits)
  with Cons.IH [OF _ _ loop] show ?case by simp
qed

lemma lines_step_init_hunk:
  assumes "is_hunk h" and "lines_step lines_init h = Inr st1"
  shows "current_line_new st1 \<noteq> None \<and> current_line_old st1 \<noteq> None
       \<and> added_lines st1 = [] \<and> deleted_lines st1 = []"
  using assms by (auto simp: lines_step_def is_hunk_def lines_init_def split: sum.splits)

lemma hunk_not_plus_minus:
  "is_hunk l \<Longrightarrow> \<not> startswith l ''+'' \<and> \<not> startswith l ''-''"
  using plus_not_hunk [of l] minus_not_hunk [of l] by (auto simp: is_hunk_def)

text \<open>
  Claim C9. In every list of lines that the sectioning pass returns for a path, a line
  that starts with \<open>+\<close> or \<open>-\<close> has a line that starts with \<open>@@\<close> before it. So when
  \<^verbatim>\<open>_parse_lines\<close> runs on such a list and reaches a line that starts with \<open>+\<close> or
  \<open>-\<close>, both counters are set; and when it returns, it has recorded one number for
  every line that starts with \<open>+\<close> and one for every line that starts with \<open>-\<close>: the
  checks for \<^verbatim>\<open>None\<close> drop no line.
\<close>

theorem C9_counters_set_in_sections:
  assumes "parse_source_sections diff_str = Inr sections_dict"
    and "(p, ls) \<in> set sections_dict"
  shows "(\<forall>i < length ls. startswith (ls ! i) ''+'' \<or> startswith (ls ! i) ''-''
            \<longrightarrow> (\<exists>j < i. startswith (ls ! j) ''@@''))
       \<and> (\<forall>pre line post st.
            ls = pre @ line # post \<and> (startswith line ''+'' \<or> startswith line ''-'')
              \<and> lines_loop lines_init pre = Inr st
            \<longrightarrow> current_line_new st \<noteq> None \<and> current_line_old st \<noteq> None)
       \<and> (\<forall>added deleted. parse_lines ls = Inr (added, deleted)
            \<longrightarrow> length added = length (filter (\<lambda>l. startswith l ''+'') ls)
              \<and> length deleted = length (filter (\<lambda>l. startswith l ''-'') ls))"
proof -
  from parse_source_sections_refines(3) [OF assms]
  have "ls = concat (spec_runs p (split_str diff_str [CHR 0x0A]))"
    by (simp add: spec_accumulated_def)
  with concat_runs_hunk [OF spec_runs_hunk, of p "split_str diff_str [CHR 0x0A]"]
  have hd: "ls = [] \<or> is_hunk (hd ls)" by simp
  have 1: "\<forall>i < length ls. startswith (ls ! i) ''+'' \<or> startswith (ls ! i) ''-''
            \<longrightarrow> (\<exists>j < i. startswith (ls ! j) ''@@'')"
  proof (intro allI impI)
    fix i assume i: "i < length ls" and pm: "startswith (ls ! i) ''+'' \<or> startswith (ls ! i) ''-''"
    from i hd have h0: "is_hunk (ls ! 0)" by (cases ls) auto
    with pm hunk_not_plus_minus [of "ls ! 0"] have "i \<noteq> 0" by (cases i) auto
    with h0 show "\<exists>j < i. startswith (ls ! j) ''@@''" by (auto simp: is_hunk_def)
  qed
  have 2: "\<forall>pre line post st.
            ls = pre @ line # post \<and> (startswith line ''+'' \<or> startswith line ''-'')
              \<and> lines_loop lines_init pre = Inr st
            \<longrightarrow> current_line_new st \<noteq> None \<and> current_line_old st \<noteq> None"
  proof (intro allI impI, elim conjE)
    fix pre line post st
    assume ls: "ls = pre @ line # post" and pm: "startswith line ''+'' \<or> startswith line ''-''"
      and loop: "lines_loop lines_init pre = Inr st"
    from ls hd pm hunk_not_plus_minus [of line] obtain h pre' where
      pre: "pre = h # pre'" and h: "is_hunk h"
      by (cases pre) auto
    from loop pre obtain st1 where
      step: "lines_step lines_init h = Inr st1" and rest: "lines_loop st1 pre' = Inr st"
      by (auto split: sum.splits)
    from lines_step_init_hunk [OF h step] lines_loop_counts [OF _ _ rest]
    show "current_line_new st \<noteq> None \<and> current_line_old st \<noteq> None" by simp
  qed
  have 3: "\<forall>added deleted. parse_lines ls = Inr (added, deleted)
            \<longrightarrow> length added = length (filter (\<lambda>l. startswith l ''+'') ls)
              \<and> length deleted = length (filter (\<lambda>l. startswith l ''-'') ls)"
  proof (intro allI impI)
    fix added deleted assume pl: "parse_lines ls = Inr (added, deleted)"
    show "length added = length (filter (\<lambda>l. startswith l ''+'') ls)
              \<and> length deleted = length (filter (\<lambda>l. startswith l ''-'') ls)"
    proof (cases ls)
      case Nil
      with pl show ?thesis by (simp add: parse_lines_Nil)
    next
      case (Cons h rest)
      with hd have h: "is_hunk h" by simp
      from pl Cons obtain st1 st' where
        step: "lines_step lines_init h = Inr st1" and loop: "lines_loop st1 rest = Inr st'"
        and ad: "added = added_lines st'" "deleted = deleted_lines st'"
        by (auto simp: parse_lines_def split: sum.splits)
      from lines_step_init_hunk [OF h step] lines_loop_counts [OF _ _ loop]
        hunk_not_plus_minus [OF h] ad Cons
      show ?thesis by simp
    qed
  qed
  from 1 2 3 show ?thesis by blast
qed

theorem C9_witness:
  "length [1, 7 :: int]
     = length (filter (\<lambda>l. startswith l ''+'')
         [''@@ -1 +1 @@'', ''+x'', ''@@ -5 +7 @@'', ''+y'', ''-z''])
   \<and> length [7 :: int]
     = length (filter (\<lambda>l. startswith l ''-'')
         [''@@ -1 +1 @@'', ''+x'', ''@@ -5 +7 @@'', ''+y'', ''-z''])
   \<and> (\<exists>j < 4. startswith
         ([''@@ -1 +1 @@'', ''+x'', ''@@ -5 +7 @@'', ''+y'', ''-z''] ! j) ''@@'')"
proof -
  have m: "(''f'', [''@@ -1 +1 @@'', ''+x'', ''@@ -5 +7 @@'', ''+y'', ''-z''])
      \<in> set [(''f'', [''@@ -1 +1 @@'', ''+x'', ''@@ -5 +7 @@'', ''+y'', ''-z'']), (''g'', [])]"
    by simp
  have z: "startswith ([''@@ -1 +1 @@'', ''+x'', ''@@ -5 +7 @@'', ''+y'', ''-z''] ! 4) ''-''"
    by code_simp
  have l: "(4::nat) < length [''@@ -1 +1 @@'', ''+x'', ''@@ -5 +7 @@'', ''+y'', ''-z'']"
    by simp
  from C9_counters_set_in_sections [OF sections_same_path_text m] lines_same_path_text(1) z l
  show ?thesis by blast
qed

section \<open>Dictionaries\<close>

lemma dict_set_map_of: "map_of (dict_set d k v) = (map_of d)(k \<mapsto> v)"
  by (induction d) (auto simp: fun_eq_iff)

lemma dict_set_keys: "fst ` set (dict_set d k v) = insert k (fst ` set d)"
  by (induction d k v rule: dict_set.induct) auto

lemma dict_set_distinct: "distinct (map fst d) \<Longrightarrow> distinct (map fst (dict_set d k v))"
proof (induction d)
  case Nil
  then show ?case by simp
next
  case (Cons a d)
  then show ?case
    using dict_set_keys [of d k v] by (cases a) (auto simp flip: set_map)
qed

lemma make_sorted_dict_set: "set (make_sorted_dict d) = set d"
  by (simp add: make_sorted_dict_def)

lemma make_sorted_dict_distinct:
  "distinct (map fst (make_sorted_dict d)) = distinct (map fst d)"
  by (simp add: make_sorted_dict_def distinct_map)

section \<open>The entries of the parse result\<close>

lemma diff_dict_loop_Inr:
  assumes "diff_dict_loop top_level secs dd = Inr dd'"
  shows "secs = [] \<or> top_level \<noteq> None"
    and "distinct (map fst dd) \<Longrightarrow> distinct (map fst dd')"
    and "top_level = Some t \<Longrightarrow>
           fst ` set dd' = fst ` set dd \<union> os_path_join t ` fst ` set secs"
    and "top_level = Some t \<Longrightarrow>
           map_of dd' k =
             (case map_of (rev (map (\<lambda>(src, ls). (os_path_join t src, ls)) secs)) k of
                None \<Rightarrow> map_of dd k
              | Some ls \<Rightarrow> (case parse_lines ls of Inl e \<Rightarrow> None | Inr v \<Rightarrow> Some v))"
  using assms
proof (induction secs arbitrary: dd)
  case Nil
  { case 1 then show ?case by simp }
  { case 2 then show ?case by simp }
  { case 3 then show ?case by simp }
  { case 4 then show ?case by simp }
next
  case (Cons a secs)
  obtain src ls where a: "a = (src, ls)" by (cases a)
  { case 1 then show ?case by (auto simp: a split: option.splits) }
  { case 2
    from 2(2) a obtain t' v where
      "top_level = Some t'" and v: "parse_lines ls = Inr v"
      and loop: "diff_dict_loop top_level secs (dict_set dd (os_path_join t' src) v) = Inr dd'"
      by (auto split: option.splits sum.splits)
    from Cons.IH(2) [OF dict_set_distinct [OF 2(1)] loop] show ?case . }
  { case 3
    from 3(2) a 3(1) obtain v where
      v: "parse_lines ls = Inr v"
      and loop: "diff_dict_loop top_level secs (dict_set dd (os_path_join t src) v) = Inr dd'"
      by (auto split: option.splits sum.splits)
    from Cons.IH(3) [OF 3(1) loop] a show ?case by (auto simp: dict_set_keys) }
  { case 4
    from 4(2) a 4(1) obtain v where
      v: "parse_lines ls = Inr v"
      and loop: "diff_dict_loop top_level secs (dict_set dd (os_path_join t src) v) = Inr dd'"
      by (auto split: option.splits sum.splits)
    from Cons.IH(4) [OF 4(1) loop] a v show ?case
      by (auto simp: dict_set_map_of map_add_def split: option.splits) }
qed

lemma parse_diff_str_entry:
  assumes "parse_diff_str top_level diff_str = Inr result"
    and "parse_source_sections diff_str = Inr sections_dict"
    and "(k, v) \<in> set result"
  shows "\<exists>t src ls. top_level = Some t \<and> (src, ls) \<in> set sections_dict \<and>
           k = os_path_join t src \<and> parse_lines ls = Inr v"
proof -
  from assms(1,2) obtain dd where
    loop: "diff_dict_loop top_level sections_dict [] = Inr dd"
    and r: "result = make_sorted_dict dd"
    by (auto simp: parse_diff_str_def split: sum.splits)
  from assms(3) r have kv: "(k, v) \<in> set dd" by (simp add: make_sorted_dict_set)
  then have ne: "sections_dict \<noteq> []" using loop by (cases sections_dict) auto
  with diff_dict_loop_Inr(1) [OF loop] obtain t where t: "top_level = Some t" by auto
  from diff_dict_loop_Inr(2) [OF loop] have "distinct (map fst dd)" by simp
  with kv have "map_of dd k = Some v" by simp
  with diff_dict_loop_Inr(4) [OF loop t, of k]
  obtain ls where m: "map_of (rev (map (\<lambda>(src, ls). (os_path_join t src, ls)) sections_dict)) k = Some ls"
    and v: "parse_lines ls = Inr v"
    by (auto split: option.splits sum.splits)
  from map_of_SomeD [OF m] obtain src where "(src, ls) \<in> set sections_dict" "k = os_path_join t src"
    by auto
  with t v show ?thesis by blast
qed

section \<open>Increasing line numbers\<close>

lemma lines_step_sorted:
  assumes "\<not> startswith l ''@@''"
    and "sorted_wrt (<) (added_lines st)" and "sorted_wrt (<) (deleted_lines st)"
    and "case current_line_new st of
           None \<Rightarrow> added_lines st = [] | Some n \<Rightarrow> \<forall>x \<in> set (added_lines st). x < n"
    and "case current_line_old st of
           None \<Rightarrow> deleted_lines st = [] | Some n \<Rightarrow> \<forall>x \<in> set (deleted_lines st). x < n"
    and "lines_step st l = Inr st1"
  shows "sorted_wrt (<) (added_lines st1) \<and> sorted_wrt (<) (deleted_lines st1)
       \<and> (case current_line_new st1 of
             None \<Rightarrow> added_lines st1 = [] | Some n \<Rightarrow> \<forall>x \<in> set (added_lines st1). x < n)
       \<and> (case current_line_old st1 of
             None \<Rightarrow> deleted_lines st1 = [] | Some n \<Rightarrow> \<forall>x \<in> set (deleted_lines st1). x < n)"
  using assms
  by (cases "current_line_new st"; cases "current_line_old st")
     (fastforce simp: lines_step_def sorted_wrt_append split: if_splits)+

lemma lines_loop_sorted:
  assumes "\<forall>l \<in> set ls. \<not> startswith l ''@@''"
    and "sorted_wrt (<) (added_lines st)" and "sorted_wrt (<) (deleted_lines st)"
    and "case current_line_new st of
           None \<Rightarrow> added_lines st = [] | Some n \<Rightarrow> \<forall>x \<in> set (added_lines st). x < n"
    and "case current_line_old st of
           None \<Rightarrow> deleted_lines st = [] | Some n \<Rightarrow> \<forall>x \<in> set (deleted_lines st). x < n"
    and "lines_loop st ls = Inr st'"
  shows "sorted_wrt (<) (added_lines st') \<and> sorted_wrt (<) (deleted_lines st')"
  using assms
proof (induction ls arbitrary: st)
  case Nil
  then show ?case by simp
next
  case (Cons l ls)
  from Cons.prems(6) obtain st1 where
    step: "lines_step st l = Inr st1" and loop: "lines_loop st1 ls = Inr st'"
    by (auto split: sum.splits)
  from Cons.prems(1) have l: "\<not> startswith l ''@@''" and ls: "\<forall>l \<in> set ls. \<not> startswith l ''@@''"
    by simp_all
  from lines_step_sorted [OF l Cons.prems(2-5) step] Cons.IH [OF ls _ _ _ _ loop]
  show ?case by blast
qed

lemma lines_loop_one_hunk:
  assumes "length (filter is_hunk ls) \<le> 1"
    and "added_lines st = []" and "deleted_lines st = []"
    and "current_line_new st = None" and "current_line_old st = None"
    and "lines_loop st ls = Inr st'"
  shows "sorted_wrt (<) (added_lines st') \<and> sorted_wrt (<) (deleted_lines st')"
  using assms
proof (induction ls arbitrary: st)
  case Nil
  then show ?case by simp
next
  case (Cons l ls)
  from Cons.prems(6) obtain st1 where
    step: "lines_step st l = Inr st1" and loop: "lines_loop st1 ls = Inr st'"
    by (auto split: sum.splits)
  show ?case
  proof (cases "is_hunk l")
    case True
    with Cons.prems(1) have "filter is_hunk ls = []" by simp
    then have nh: "\<forall>l \<in> set ls. \<not> startswith l ''@@''"
      by (simp add: filter_empty_conv is_hunk_def)
    from True step Cons.prems(2,3) have
      "added_lines st1 = []" "deleted_lines st1 = []"
      by (auto simp: lines_step_def is_hunk_def split: sum.splits)
    with lines_loop_sorted [OF nh _ _ _ _ loop] show ?thesis
      by (simp split: option.splits)
  next
    case False
    with step Cons.prems(2-5) have
      "added_lines st1 = []" "deleted_lines st1 = []"
      "current_line_new st1 = None" "current_line_old st1 = None"
      by (auto simp: lines_step_def is_hunk_def split: if_splits)
    with Cons.IH [OF _ _ _ _ _ loop] False Cons.prems(1) show ?thesis by simp
  qed
qed

text \<open>
  Claim C2, as the code has it. When the parser accepts a diff text and the lines it
  retains for every path hold at most one hunk marker, the added and the deleted
  numbers of every entry of the result are strictly increasing.
\<close>

theorem C2_one_hunk_increasing:
  assumes "parse_diff_str top_level diff_str = Inr result"
    and "parse_source_sections diff_str = Inr sections_dict"
    and "\<forall>(src, ls) \<in> set sections_dict. length (filter is_hunk ls) \<le> 1"
    and "(k, added, deleted) \<in> set result"
  shows "sorted_wrt (<) added \<and> sorted_wrt (<) deleted"
proof -
  from parse_diff_str_entry [OF assms(1,2,4)] obtain src ls where
    m: "(src, ls) \<in> set sections_dict" and p: "parse_lines ls = Inr (added, deleted)"
    by blast
  from p obtain st' where loop: "lines_loop lines_init ls = Inr st'"
    and ad: "added = added_lines st'" "deleted = deleted_lines st'"
    by (auto simp: parse_lines_def split: sum.splits)
  from m assms(3) have "length (filter is_hunk ls) \<le> 1" by auto
  from lines_loop_one_hunk [OF this _ _ _ _ loop] ad show ?thesis
    by (simp add: lines_init_def)
qed

lemma parse_one_hunk_text:
  "parse_source_sections one_hunk_text
     = Inr [(''f'', [''@@ -1,3 +1,3 @@'', ''+x'', ''+y'', ''-z'', ''-w'', '' c''])]"
  "parse_diff_str (Some ''/r'') one_hunk_text = Inr [(''/r/f'', ([1, 2], [1, 2]))]"
  by code_simp+

theorem C2_witness:
  "parse_diff_str (Some ''/r'') one_hunk_text = Inr [(''/r/f'', ([1, 2], [1, 2]))]
   \<and> sorted_wrt (<) [1, 2 :: int] \<and> sorted_wrt (<) [1, 2 :: int]"
proof -
  have h: "\<forall>(src, ls) \<in> set [(''f'', [''@@ -1,3 +1,3 @@'', ''+x'', ''+y'', ''-z'', ''-w'', '' c''])].
             length (filter is_hunk ls) \<le> 1"
    by code_simp
  have m: "(''/r/f'', [1, 2], [1, 2]) \<in> set [(''/r/f'', ([1, 2 :: int], [1, 2 :: int]))]"
    by simp
  from C2_one_hunk_increasing [OF parse_one_hunk_text(2) parse_one_hunk_text(1) h m]
    parse_one_hunk_text(2)
  show ?thesis by blast
qed

text \<open>
  Claim C2 as stated fails. The text \<open>two_hunk_text\<close> is a well-formed unified diff,
  with one line of context, of a file that loses its first four lines and its eighth.
  Both hunks are accepted, the second sets the old counter to its new start 3, and the
  deleted numbers are not strictly increasing.
\<close>

lemma parse_two_hunk_text:
  "parse_diff_str (Some ''/r'') two_hunk_text = Inr [(''/r/f'', ([], [1, 2, 3, 4, 4]))]"
  by code_simp

theorem C2_counterexample:
  "parse_diff_str (Some ''/r'') two_hunk_text = Inr [(''/r/f'', ([], [1, 2, 3, 4, 4]))]
   \<and> \<not> sorted_wrt (<) [1, 2, 3, 4, 4 :: int]"
  using parse_two_hunk_text by simp

section \<open>A file without a hunk\<close>

lemma spec_accumulated_Nil:
  assumes "\<forall>(h, b) \<in> set (snd (spec_sections_of lines)).
             parse_source_line h = Inr q \<longrightarrow> (\<forall>l \<in> set b. \<not> is_hunk l)"
  shows "spec_accumulated q lines = []"
  using assms
  by (auto simp: spec_accumulated_def spec_runs_def spec_retained_def dropWhile_eq_Nil_conv)

text \<open>
  Claim C5, as the code has it. Let the parser accept the diff text, let a header of
  the text name the path \<open>p\<close>, and let no section whose header names \<open>p\<close>, or a path
  that joins the top level to the same key as \<open>p\<close>, hold a hunk marker. Then the
  sectioning pass returns \<open>p\<close> with no lines, and the result has exactly one entry
  with the key of \<open>p\<close>, the empty pair of lists.
\<close>

theorem C5_file_without_hunk:
  assumes "parse_diff_str (Some t) diff_str = Inr result"
    and "(header, body) \<in> set (snd (spec_sections_of (split_str diff_str [CHR 0x0A])))"
    and "parse_source_line header = Inr p"
    and "\<forall>(h, b) \<in> set (snd (spec_sections_of (split_str diff_str [CHR 0x0A]))).
           (case parse_source_line h of
              Inl e \<Rightarrow> False
            | Inr q \<Rightarrow> os_path_join t q = os_path_join t p)
           \<longrightarrow> (\<forall>l \<in> set b. \<not> is_hunk l)"
  shows "(\<exists>sections_dict. parse_source_sections diff_str = Inr sections_dict
            \<and> (p, []) \<in> set sections_dict)
       \<and> (os_path_join t p, ([], [])) \<in> set result
       \<and> distinct (map fst result)"
proof -
  let ?lines = "split_str diff_str [CHR 0x0A]"
  let ?key = "\<lambda>(src, ls :: string list). (os_path_join t src, ls)"
  from assms(1) obtain secs dd where
    secs: "parse_source_sections diff_str = Inr secs"
    and loop: "diff_dict_loop (Some t) secs [] = Inr dd"
    and r: "result = make_sorted_dict dd"
    by (auto simp: parse_diff_str_def split: sum.splits)
  note ref = parse_source_sections_refines [OF secs]
  have empty: "ls = []" if "(q, ls) \<in> set secs" "os_path_join t q = os_path_join t p" for q ls
  proof -
    from that(2) assms(4)
    have "\<forall>(h, b) \<in> set (snd (spec_sections_of ?lines)).
             parse_source_line h = Inr q \<longrightarrow> (\<forall>l \<in> set b. \<not> is_hunk l)"
      by fastforce
    from spec_accumulated_Nil [OF this] ref(3) [OF that(1)] show ?thesis by simp
  qed
  from assms(2,3) ref(2) have "p \<in> fst ` set secs" by blast
  then obtain ls where "(p, ls) \<in> set secs" by auto
  with empty [of p ls] have p: "(p, []) \<in> set secs" by simp
  then have "os_path_join t p \<in> fst ` set (rev (map ?key secs))" by force
  then obtain ls' where m: "map_of (rev (map ?key secs)) (os_path_join t p) = Some ls'"
    by (cases "map_of (rev (map ?key secs)) (os_path_join t p)")
       (auto simp: map_of_eq_None_iff)
  from map_of_SomeD [OF m] empty have "ls' = []" by auto
  with m diff_dict_loop_Inr(4) [OF loop refl, of "os_path_join t p"]
  have "map_of dd (os_path_join t p) = Some ([], [])"
    by (simp add: parse_lines_Nil)
  then have "(os_path_join t p, ([], [])) \<in> set dd" by (rule map_of_SomeD)
  moreover from diff_dict_loop_Inr(2) [OF loop] have "distinct (map fst dd)" by simp
  ultimately show ?thesis
    using secs p r by (simp add: make_sorted_dict_set make_sorted_dict_distinct)
qed

lemma parse_same_path_text:
  "parse_diff_str (Some ''/r'') same_path_text
     = Inr [(''/r/f'', ([1, 7], [7])), (''/r/g'', ([], []))]"
  by code_simp

lemma header_g_same_path_text:
  "(''diff --git a/g b/g'', []) \<in> set (snd (spec_sections_of (split_str same_path_text [CHR 0x0A])))"
  "parse_source_line ''diff --git a/g b/g'' = Inr ''g''"
  "os_path_join ''/r'' ''g'' = ''/r/g''"
  by code_simp+

lemma others_same_path_text:
  "\<forall>(h, b) \<in> set (snd (spec_sections_of (split_str same_path_text [CHR 0x0A]))).
           (case parse_source_line h of
              Inl e \<Rightarrow> False
            | Inr q \<Rightarrow> os_path_join ''/r'' q = os_path_join ''/r'' ''g'')
           \<longrightarrow> (\<forall>l \<in> set b. \<not> is_hunk l)"
  by code_simp

theorem C5_witness:
  "parse_diff_str (Some ''/r'') same_path_text
     = Inr [(''/r/f'', ([1, 7], [7])), (''/r/g'', ([], []))]
   \<and> (''/r/g'', ([], [])) \<in> set [(''/r/f'', ([1, 7 :: int], [7 :: int])), (''/r/g'', ([], []))]
   \<and> (\<exists>sections_dict. parse_source_sections same_path_text = Inr sections_dict
            \<and> (''g'', []) \<in> set sections_dict)"
  using C5_file_without_hunk [OF parse_same_path_text header_g_same_path_text(1,2)
      others_same_path_text]
    parse_same_path_text
  by (simp only: header_g_same_path_text(3) simp_thms)

text \<open>
  Claim C5 as stated fails. The last line of \<open>repeated_header_text\<close> is a header that
  names \<open>f\<close> and has nothing after it, but an earlier header names \<open>f\<close> too, with a
  hunk: \<open>f\<close> is not mapped to the empty pair of lists.
\<close>

lemma parse_repeated_header_text:
  "(''diff --git a/f b/f'', []) \<in> set (snd (spec_sections_of (split_str repeated_header_text [CHR 0x0A])))"
  "parse_source_line ''diff --git a/f b/f'' = Inr ''f''"
  "parse_diff_str (Some ''/r'') repeated_header_text = Inr [(''/r/f'', ([1], []))]"
  by code_simp+

theorem C5_counterexample:
  "(''diff --git a/f b/f'', [])
     \<in> set (snd (spec_sections_of (split_str repeated_header_text [CHR 0x0A])))
   \<and> parse_source_line ''diff --git a/f b/f'' = Inr ''f''
   \<and> parse_diff_str (Some ''/r'') repeated_header_text = Inr [(''/r/f'', ([1], []))]
   \<and> (os_path_join ''/r'' ''f'', ([], [])) \<notin> set [(''/r/f'', ([1 :: int], [] :: int list))]"
  using parse_repeated_header_text by simp

section \<open>One path under several headers\<close>

text \<open>
  Claim C10, as the code has it. Let the parser accept the diff text, let a header of
  the text name the path \<open>p\<close>, and let no header of the text name another path that
  joins the top level to the same key as \<open>p\<close>. Then the sectioning pass returns one
  entry for \<open>p\<close>, and its lines are the retained lines of all the sections whose header
  names \<open>p\<close>, one run after the other in text order. \<^verbatim>\<open>_parse_lines\<close> accepts every run
  on its own, and the result has exactly one entry with the key of \<open>p\<close>: its added
  numbers are those of the runs, one run after the other, and so are its deleted
  numbers.
\<close>

theorem C10_same_path_accumulates:
  assumes "parse_diff_str (Some t) diff_str = Inr result"
    and "(header, body) \<in> set (snd (spec_sections_of (split_str diff_str [CHR 0x0A])))"
    and "parse_source_line header = Inr p"
    and "\<forall>(h, b) \<in> set (snd (spec_sections_of (split_str diff_str [CHR 0x0A]))).
           (case parse_source_line h of
              Inl e \<Rightarrow> True
            | Inr q \<Rightarrow> os_path_join t q = os_path_join t p \<longrightarrow> q = p)"
  shows "(\<exists>sections_dict. parse_source_sections diff_str = Inr sections_dict
            \<and> distinct (map fst sections_dict)
            \<and> (p, concat (spec_runs p (split_str diff_str [CHR 0x0A]))) \<in> set sections_dict)
       \<and> distinct (map fst result)
       \<and> (\<exists>rs. map parse_lines (spec_runs p (split_str diff_str [CHR 0x0A])) = map Inr rs
            \<and> (os_path_join t p, (concat (map fst rs), concat (map snd rs))) \<in> set result)"
proof -
  let ?lines = "split_str diff_str [CHR 0x0A]"
  let ?key = "\<lambda>(src, ls :: string list). (os_path_join t src, ls)"
  from assms(1) obtain secs dd where
    secs: "parse_source_sections diff_str = Inr secs"
    and loop: "diff_dict_loop (Some t) secs [] = Inr dd"
    and r: "result = make_sorted_dict dd"
    by (auto simp: parse_diff_str_def split: sum.splits)
  note ref = parse_source_sections_refines [OF secs]
  from assms(2,3) ref(2) have "p \<in> fst ` set secs" by blast
  then obtain ls where p: "(p, ls) \<in> set secs" by auto
  from ref(3) [OF p] have ls: "ls = concat (spec_runs p ?lines)"
    by (simp add: spec_accumulated_def)
  have same: "q = p" if "(q, ls') \<in> set secs" "os_path_join t q = os_path_join t p" for q ls'
  proof -
    from that(1) have "q \<in> fst ` set secs" by force
    with ref(2) obtain h b where "(h, b) \<in> set (snd (spec_sections_of ?lines))"
      and "parse_source_line h = Inr q" by auto
    with assms(4) that(2) show ?thesis by fastforce
  qed
  from p have "os_path_join t p \<in> fst ` set (rev (map ?key secs))" by force
  then obtain ls' where m: "map_of (rev (map ?key secs)) (os_path_join t p) = Some ls'"
    by (cases "map_of (rev (map ?key secs)) (os_path_join t p)")
       (auto simp: map_of_eq_None_iff)
  from map_of_SomeD [OF m] obtain q where "(q, ls') \<in> set secs"
    and "os_path_join t q = os_path_join t p" by auto
  with same [of q ls'] have "(p, ls') \<in> set secs" by simp
  with p ref(1) have "ls' = ls" by (meson eq_key_imp_eq_value)
  with m diff_dict_loop_Inr(4) [OF loop refl, of "os_path_join t p"]
  have e: "map_of dd (os_path_join t p) =
             (case parse_lines ls of Inl e \<Rightarrow> None | Inr v \<Rightarrow> Some v)"
    by simp
  from p diff_dict_loop_Inr(3) [OF loop refl] have "os_path_join t p \<in> fst ` set dd"
    by force
  then have "map_of dd (os_path_join t p) \<noteq> None" by (simp add: map_of_eq_None_iff)
  with e obtain a d where v: "parse_lines ls = Inr (a, d)"
    and "map_of dd (os_path_join t p) = Some (a, d)"
    by (auto split: sum.splits)
  then have i: "(os_path_join t p, (a, d)) \<in> set dd" by (simp add: map_of_SomeD)
  from v ls parse_lines_concat [OF spec_runs_hunk, of p ?lines a d]
  obtain rs where "map parse_lines (spec_runs p ?lines) = map Inr rs"
    and "a = concat (map fst rs)" and "d = concat (map snd rs)"
    by auto
  with i have "\<exists>rs. map parse_lines (spec_runs p ?lines) = map Inr rs
            \<and> (os_path_join t p, (concat (map fst rs), concat (map snd rs))) \<in> set dd"
    by blast
  moreover from diff_dict_loop_Inr(2) [OF loop] have "distinct (map fst dd)" by simp
  ultimately show ?thesis
    using secs p ls ref(1) r by (simp add: make_sorted_dict_set make_sorted_dict_distinct)
qed

lemma header_f_same_path_text:
  "(''diff --git a/f b/f'', [''@@ -1 +1 @@'', ''+x''])
     \<in> set (snd (spec_sections_of (split_str same_path_text [CHR 0x0A])))"
  "parse_source_line ''diff --git a/f b/f'' = Inr ''f''"
  "os_path_join ''/r'' ''f'' = ''/r/f''"
  by code_simp+

lemma keys_same_path_text:
  "\<forall>(h, b) \<in> set (snd (spec_sections_of (split_str same_path_text [CHR 0x0A]))).
           (case parse_source_line h of
              Inl e \<Rightarrow> True
            | Inr q \<Rightarrow> os_path_join ''/r'' q = os_path_join ''/r'' ''f'' \<longrightarrow> q = ''f'')"
  by code_simp

theorem C10_witness:
  "parse_diff_str (Some ''/r'') same_path_text
     = Inr [(''/r/f'', ([1, 7], [7])), (''/r/g'', ([], []))]
   \<and> spec_runs ''f'' (split_str same_path_text [CHR 0x0A])
       = [[''@@ -1 +1 @@'', ''+x''], [''@@ -5 +7 @@'', ''+y'', ''-z'']]
   \<and> map parse_lines [[''@@ -1 +1 @@'', ''+x''], [''@@ -5 +7 @@'', ''+y'', ''-z'']]
       = map Inr [([1], []), ([7], [7])]
   \<and> (''/r/f'', (concat (map fst [([1], []), ([7 :: int], [7 :: int])]),
                  concat (map snd [([1 :: int], []), ([7], [7])])))
       \<in> set [(''/r/f'', ([1, 7], [7])), (''/r/g'', ([], []))]
   \<and> (\<exists>sections_dict. parse_source_sections same_path_text = Inr sections_dict
         \<and> (''f'', [''@@ -1 +1 @@'', ''+x'', ''@@ -5 +7 @@'', ''+y'', ''-z'']) \<in> set sections_dict)"
proof -
  from C10_same_path_accumulates [OF parse_same_path_text header_f_same_path_text(1,2)
      keys_same_path_text]
  obtain sections_dict rs where
    s: "parse_source_sections same_path_text = Inr sections_dict"
       "(''f'', concat (spec_runs ''f'' (split_str same_path_text [CHR 0x0A]))) \<in> set sections_dict"
    and rs: "map parse_lines (spec_runs ''f'' (split_str same_path_text [CHR 0x0A])) = map Inr rs"
    and e: "(os_path_join ''/r'' ''f'', (concat (map fst rs), concat (map snd rs)))
              \<in> set [(''/r/f'', ([1, 7], [7])), (''/r/g'', ([], []))]"
    by blast
  from rs have "rs = [([1], []), ([7], [7])]"
    unfolding runs_same_path_text
    by (auto simp: lines_same_path_text(2,3) Cons_eq_map_conv)
  with s e show ?thesis
    unfolding runs_same_path_text
    by (simp add: parse_same_path_text lines_same_path_text(2,3))
qed

text \<open>
  Claim C10 as stated fails where two paths have one key. In \<open>colliding_key_text\<close>
  two headers name \<open>f\<close>, and the sectioning pass collects the lines of both sections,
  whose added numbers are 1 and 7 and whose deleted number is 7. A later header names
  \<open>/r/f\<close>. Under the top level \<open>/r\<close> both paths have the key \<open>/r/f\<close>, and the entry
  written for \<open>/r/f\<close> replaces the one written for \<open>f\<close>: the result has the added
  number 40 alone.
\<close>

theorem C10_counterexample:
  "parse_source_sections colliding_key_text
     = Inr [(''f'', [''@@ -1 +1 @@'', ''+x'', ''@@ -5 +7 @@'', ''+y'', ''-z'']),
            (''/r/f'', [''@@ -1 +40 @@'', ''+w''])]
   \<and> parse_lines [''@@ -1 +1 @@'', ''+x'', ''@@ -5 +7 @@'', ''+y'', ''-z''] = Inr ([1, 7], [7])
   \<and> os_path_join ''/r'' ''f'' = ''/r/f''
   \<and> parse_diff_str (Some ''/r'') colliding_key_text = Inr [(''/r/f'', ([40], []))]
   \<and> (''/r/f'', ([1, 7], [7])) \<notin> set [(''/r/f'', ([40 :: int], [] :: int list))]"
  by code_simp

section \<open>The file-only and the line-level query\<close>







section \<open>The tool for a path outside every repository\<close>

lemma fold_dict_set_map_of:
  "map_of (foldl (\<lambda>paths_dic p. dict_set paths_dic p v) d ps) f
     = (if f \<in> set ps then Some v else map_of d f)"
  by (induction ps arbitrary: d) (auto simp: dict_set_map_of)

lemma fold_dict_set_keys:
  "fst ` set (foldl (\<lambda>paths_dic p. dict_set paths_dic p v) d ps) = fst ` set d \<union> set ps"
  by (induction ps arbitrary: d) (auto simp: dict_set_keys)

lemma diff_tools_loop_keys:
  "fst ` set diff_tools \<subseteq> fst ` set (diff_tools_loop run paths diff_tools)"
proof (induction paths arbitrary: diff_tools)
  case Nil
  then show ?case by simp
next
  case (Cons path paths)
  show ?case
  proof (cases "select_tool run TOOLS path")
    case None
    with Cons show ?thesis by simp
  next
    case (Some tool)
    let ?d = "if tool_top_level run tool \<notin> set (map fst diff_tools)
              then dict_set diff_tools (tool_top_level run tool) tool else diff_tools"
    have "fst ` set diff_tools \<subseteq> fst ` set ?d" by (auto simp: dict_set_keys)
    also have "\<dots> \<subseteq> fst ` set (diff_tools_loop run paths ?d)" by (rule Cons)
    finally show ?thesis using Some by simp
  qed
qed

lemma diff_tools_loop_selected:
  assumes "path \<in> set paths" and "select_tool run TOOLS path = Some tool"
  shows "tool_top_level run tool \<in> fst ` set (diff_tools_loop run paths diff_tools)"
  using assms(1)
proof (induction paths arbitrary: diff_tools)
  case Nil
  then show ?case by simp
next
  case (Cons a paths)
  show ?case
  proof (cases "a = path")
    case True
    let ?d = "if tool_top_level run tool \<notin> set (map fst diff_tools)
              then dict_set diff_tools (tool_top_level run tool) tool else diff_tools"
    have "tool_top_level run tool \<in> fst ` set ?d" by (auto simp: dict_set_keys)
    moreover have "fst ` set ?d \<subseteq> fst ` set (diff_tools_loop run paths ?d)"
      by (rule diff_tools_loop_keys)
    ultimately have "tool_top_level run tool \<in> fst ` set (diff_tools_loop run paths ?d)"
      by blast
    moreover have "diff_tools_loop run (a # paths) diff_tools = diff_tools_loop run paths ?d"
      using True assms(2) by simp
    ultimately show ?thesis by (simp only:)
  next
    case False
    with Cons show ?thesis by (cases "select_tool run TOOLS a") auto
  qed
qed

text \<open>
  Claim C8. When neither the git tool nor the Mercurial stub reports a repository at a
  path, the loop over the tools, which tries the tool for no version control last,
  stops at that tool, which always reports a repository. Its top level is the path
  itself, so the path is a key of the tools of every \<^verbatim>\<open>DiffTool\<close> made with it, and
  the only key when it is made with this path alone. Each of the three line queries of
  the tool returns a dictionary whose keys are the discovered files, each mapped to the
  pair of the list with the one number \<open>-1\<close>, which is below every line number, and
  the numbers from 0 up to 99999.
\<close>

theorem C8_no_history_fallback:
  assumes "\<not> tool_is_repo run (GitDiffTool path)"
    and "\<not> tool_is_repo run (HgDiffTool path)"
  shows "select_tool run TOOLS path = Some (NoDiffTool path)
       \<and> tool_is_repo run (NoDiffTool path)
       \<and> DiffTool_init run [path] = [(Some path, NoDiffTool path)]
       \<and> (path \<in> set paths \<longrightarrow> Some path \<in> fst ` set (DiffTool_init run paths))
       \<and> (\<forall>query \<in> {no_commited_file_lines get_files path branch,
                       no_staged_file_lines get_files path,
                       no_unstaged_file_lines get_files path}.
             fst ` set query = set (get_files [path])
             \<and> (\<forall>f \<in> set (get_files [path]).
                   map_of query f = Some ([- 1], py_range 100000)))
       \<and> (- 1 :: int) < 1
       \<and> length (py_range 100000) = 100000
       \<and> set (py_range 100000) = {0 ..< 100000}"
proof -
  from assms have s: "select_tool run TOOLS path = Some (NoDiffTool path)"
    by (simp add: TOOLS_def)
  from s have i: "DiffTool_init run [path] = [(Some path, NoDiffTool path)]"
    by (simp add: DiffTool_init_def)
  from diff_tools_loop_selected [OF _ s, of paths "[]"]
  have k: "path \<in> set paths \<longrightarrow> Some path \<in> fst ` set (DiffTool_init run paths)"
    by (simp add: DiffTool_init_def)
  have q: "fst ` set (get_files_helper_lines get_files path) = set (get_files [path])
      \<and> (\<forall>f \<in> set (get_files [path]).
            map_of (get_files_helper_lines get_files path) f = Some ([- 1], py_range 100000))"
    using fold_dict_set_keys
      [where v = "([- 1], py_range 100000)" and d = "[]" and ps = "get_files [path]"]
    by (simp add: get_files_helper_lines_def fold_dict_set_map_of)
  have r: "set (py_range 100000) = {0 ..< 100000}"
  proof -
    have "set (py_range 100000) = int ` {0 ..< 100000}" by (simp add: py_range_def)
    also have "\<dots> = {0 ..< 100000}"
      using image_int_atLeastLessThan [of 0 100000] by simp
    finally show ?thesis .
  qed
  have l: "length (py_range 100000) = 100000" by (simp add: py_range_def)
  from s i k q r l show ?thesis
    by (simp add: no_commited_file_lines_def no_staged_file_lines_def
        no_unstaged_file_lines_def)
qed

theorem C8_witness:
  "select_tool no_git_run TOOLS ''/d'' = Some (NoDiffTool ''/d'')
   \<and> DiffTool_init no_git_run [''/d''] = [(Some ''/d'', NoDiffTool ''/d'')]
   \<and> map_of (no_staged_file_lines (\<lambda>paths. [''/d/a.py'', ''/d/b.py'']) ''/d'') ''/d/b.py''
       = Some ([- 1], py_range 100000)"
proof -
  have a: "\<not> tool_is_repo no_git_run (GitDiffTool ''/d'')"
    by (simp add: git_is_repo_def no_git_run_def)
  have b: "\<not> tool_is_repo no_git_run (HgDiffTool ''/d'')" by simp
  from C8_no_history_fallback [OF a b, of "[]" "\<lambda>paths. [''/d/a.py'', ''/d/b.py'']" "''master''"]
  show ?thesis by simp
qed

end
